theory Spec2Isabelle
  imports Main
begin

section \<open>Strings\<close>

text \<open>
  A source string is modelled as a \<^typ>\<open>string\<close>, one \<^typ>\<open>char\<close> per code unit;
  the model therefore covers texts whose code units are below 256.  The white-space
  class of the regular expressions (\<open>\s\<close>) and of \<open>trim\<close> is the same set in the source;
  restricted to that range it is tab, line feed, vertical tab, form feed, carriage
  return, space and no-break space.
\<close>

definition isSpace :: "char \<Rightarrow> bool" where
  "isSpace c = (c = CHR 0x09 \<or> c = CHR 0x0A \<or> c = CHR 0x0B \<or> c = CHR 0x0C \<or>
                c = CHR 0x0D \<or> c = CHR 0x20 \<or> c = CHR 0xA0)"

definition isBlankChar :: "char \<Rightarrow> bool" where
  \<comment> \<open>the class \<open>[ \t]\<close>\<close>
  "isBlankChar c = (c = CHR 0x20 \<or> c = CHR 0x09)"

definition trimStart :: "string \<Rightarrow> string" where
  "trimStart s = dropWhile isSpace s"

definition trimEnd :: "string \<Rightarrow> string" where
  "trimEnd s = rev (dropWhile isSpace (rev s))"

definition trim :: "string \<Rightarrow> string" where
  "trim s = trimEnd (trimStart s)"

definition startsWith :: "string \<Rightarrow> string \<Rightarrow> bool" where
  "startsWith s p = (take (length p) s = p)"

fun includes_s :: "string \<Rightarrow> string \<Rightarrow> bool" where
  "includes_s [] p = (p = [])"
| "includes_s (c # cs) p = (startsWith (c # cs) p \<or> includes_s cs p)"

fun join :: "string \<Rightarrow> string list \<Rightarrow> string" where
  "join sep [] = []"
| "join sep [x] = x"
| "join sep (x # y # ys) = x @ sep @ join sep (y # ys)"

text \<open>\<open>s.split(c)\<close> for a one-character separator: every occurrence separates, and the
  empty string gives one empty piece.\<close>

fun splitAcc :: "char \<Rightarrow> string \<Rightarrow> string \<Rightarrow> string list" where
  "splitAcc c cur [] = [cur]"
| "splitAcc c cur (x # xs) =
     (if x = c then cur # splitAcc c [] xs else splitAcc c (cur @ [x]) xs)"

definition splitOn :: "char \<Rightarrow> string \<Rightarrow> string list" where
  "splitOn c s = splitAcc c [] s"

text \<open>\<open>text.split(/\r?\n/)\<close>: a line feed separates, together with a carriage return
  right before it; a lone carriage return does not.\<close>

fun splitLinesAcc :: "string \<Rightarrow> string \<Rightarrow> string list" where
  "splitLinesAcc cur [] = [cur]"
| "splitLinesAcc cur [x] = (if x = CHR 0x0A then [cur, []] else [cur @ [x]])"
| "splitLinesAcc cur (x # y # ys) =
     (if x = CHR 0x0D \<and> y = CHR 0x0A then cur # splitLinesAcc [] ys
      else if x = CHR 0x0A then cur # splitLinesAcc [] (y # ys)
      else splitLinesAcc (cur @ [x]) (y # ys))"

definition splitLines :: "string \<Rightarrow> string list" where
  "splitLines s = splitLinesAcc [] s"

text \<open>\<open>s.split(/\s+/)\<close>: every maximal run of white space separates; a run at either
  end of the string leaves an empty piece there.\<close>

function splitWsAcc :: "string \<Rightarrow> string \<Rightarrow> string list" where
  "splitWsAcc cur [] = [cur]"
| "splitWsAcc cur (x # xs) =
     (if isSpace x then cur # splitWsAcc [] (dropWhile isSpace xs)
      else splitWsAcc (cur @ [x]) xs)"
  by pat_completeness auto
termination
  by (relation "measure (\<lambda>(cur, s). length s)")
     (auto simp: length_dropWhile_le less_Suc_eq_le)

definition splitWs :: "string \<Rightarrow> string list" where
  "splitWs s = splitWsAcc [] s"

text \<open>Decimal rendering of a number, as in a template literal.\<close>

definition digitChar :: "nat \<Rightarrow> char" where
  "digitChar d = char_of (48 + d)"

fun showNat :: "nat \<Rightarrow> string" where
  "showNat n = (if n < 10 then [digitChar n] else showNat (n div 10) @ [digitChar (n mod 10)])"

declare showNat.simps [simp del]

section \<open>grammar.ts\<close>

record LogicalSegment =
  physicalLine :: nat
  segmentIndex :: nat
  indent :: nat
  raw :: string
  code :: string
  comment :: string

record Grammar =
  speckey :: "string option"
  nodekey :: "string option"
  linekey :: "string list"
  trimmedCode :: string

definition SPEC_KEYS :: "string list" where
  "SPEC_KEYS = [''else'', ''then'']"

definition NODE_KEYS :: "string list" where
  "NODE_KEYS = [''dec'', ''ii'', ''end'', ''do'', ''fun'', ''im'', ''ex'']"

definition INLINE_KEYS :: "string list" where
  "INLINE_KEYS = [''if'', ''of'', ''loop'', ''next'']"

definition normalizeIvxToken :: "string \<Rightarrow> string" where
  "normalizeIvxToken t = (if startsWith t ''@'' then drop 1 t else t)"

text \<open>The source splits at \<open>/\s*,\s*/\<close> and then trims every piece and drops the empty
  ones.  A match of that expression is one comma with the white space around it, so
  after the trim the pieces are those of a split at every comma.\<close>

definition splitDecisionLabels :: "string \<Rightarrow> string list" where
  "splitDecisionLabels t = filter (\<lambda>l. l \<noteq> []) (map trim (splitOn CHR '','' t))"

text \<open>The scanning loop of \<open>splitCodeAndComment\<close>; the state is the code read so far and
  the two quote flags.\<close>

fun splitCodeAndCommentLoop :: "string \<Rightarrow> bool \<Rightarrow> bool \<Rightarrow> string \<Rightarrow> string \<times> string" where
  "splitCodeAndCommentLoop cd inSingle inDouble [] = (cd, [])"
| "splitCodeAndCommentLoop cd inSingle inDouble (ch # rest) =
     (if ch = CHR 0x27 \<and> \<not> inDouble then
        splitCodeAndCommentLoop (cd @ [ch]) (\<not> inSingle) inDouble rest
      else if ch = CHR 0x22 \<and> \<not> inSingle then
        splitCodeAndCommentLoop (cd @ [ch]) inSingle (\<not> inDouble) rest
      else if ch = CHR ''#'' \<and> \<not> inSingle \<and> \<not> inDouble then (cd, rest)
      else splitCodeAndCommentLoop (cd @ [ch]) inSingle inDouble rest)"

definition splitCodeAndComment :: "string \<Rightarrow> string \<times> string" where
  "splitCodeAndComment r = splitCodeAndCommentLoop [] False False r"

fun computeIndentLoop :: "nat \<Rightarrow> nat \<Rightarrow> string \<Rightarrow> nat" where
  "computeIndentLoop ind spaceCount [] = ind"
| "computeIndentLoop ind spaceCount (ch # rest) =
     (if ch = CHR 0x09 then computeIndentLoop (ind + 1) 0 rest
      else if ch = CHR 0x20 then
        (if spaceCount + 1 = 4 then computeIndentLoop (ind + 1) 0 rest
         else computeIndentLoop ind (spaceCount + 1) rest)
      else computeIndentLoop ind spaceCount rest)"

definition computeIndent :: "string \<Rightarrow> nat" where
  "computeIndent indentString = computeIndentLoop 0 0 indentString"

text \<open>The body of the inner \<open>forEach\<close> of \<open>collectSegments\<close>: what one piece of a line
  contributes, nothing when the piece is blank.\<close>

definition segmentOfPiece :: "nat \<Rightarrow> nat \<Rightarrow> string \<Rightarrow> LogicalSegment option" where
  "segmentOfPiece lineIndex segIndex segText =
     (if list_all isSpace segText then None
      else
        let indentString = takeWhile isBlankChar segText;
            ind = computeIndent indentString;
            r = dropWhile isBlankChar segText;
            (cd, cm) = splitCodeAndComment r
        in Some \<lparr> physicalLine = lineIndex, segmentIndex = segIndex, indent = ind,
                  raw = r, code = cd, comment = cm \<rparr>)"

definition segmentsOfLine :: "nat \<Rightarrow> string \<Rightarrow> LogicalSegment list" where
  "segmentsOfLine lineIndex ln =
     List.map_filter (\<lambda>(segIndex, segText). segmentOfPiece lineIndex segIndex segText)
       (enumerate 0 (splitOn CHR '':'' ln))"

definition collectSegments :: "string \<Rightarrow> LogicalSegment list" where
  "collectSegments t =
     concat (map (\<lambda>(lineIndex, ln). segmentsOfLine lineIndex ln) (enumerate 0 (splitLines t)))"

text \<open>\<open>SegGram\<close> walks the token array with a cursor \<open>i\<close>; the three guarded blocks of
  the source are the three stages below, each on the state
  (tokens, \<open>i\<close>, speckey, nodekey).\<close>

type_synonym gramState = "string list \<times> nat \<times> string option \<times> string option"

definition spliceBang :: "nat \<Rightarrow> string list \<Rightarrow> string list" where
  \<comment> \<open>\<open>tokens.splice(i, 0, '!')\<close>\<close>
  "spliceBang i tokens = take i tokens @ [''!''] @ drop i tokens"

definition gramFirst :: "string list \<Rightarrow> gramState" where
  "gramFirst tokens =
     (if 0 < length tokens then
        let norm0 = normalizeIvxToken (tokens ! 0);
            collapsedBang = (norm0 = ''fun!'' \<or> norm0 = ''fun!{'');
            first = (if collapsedBang then ''fun'' else norm0)
        in if first \<in> set SPEC_KEYS then (tokens, 1, Some first, None)
           else if first \<in> set NODE_KEYS then
             ((if collapsedBang then spliceBang 1 tokens else tokens), 1, None, Some first)
           else (tokens, 0, None, None)
      else (tokens, 0, None, None))"

definition gramSpec :: "gramState \<Rightarrow> gramState" where
  "gramSpec st =
     (case st of (tokens, i, sk, nk) \<Rightarrow>
        if i < length tokens then
          let norm = normalizeIvxToken (tokens ! i)
          in if norm \<in> set SPEC_KEYS then (tokens, i + 1, Some norm, nk) else st
        else st)"

definition gramNode :: "gramState \<Rightarrow> gramState" where
  "gramNode st =
     (case st of (tokens, i, sk, nk) \<Rightarrow>
        if i < length tokens then
          let norm = normalizeIvxToken (tokens ! i)
          in if norm \<in> set NODE_KEYS then (tokens, i + 1, sk, Some norm) else st
        else st)"

definition resolveTokens :: "string list \<Rightarrow> Grammar" where
  "resolveTokens tokens0 =
     (case gramNode (gramSpec (gramFirst tokens0)) of (tokens, i, sk, nk) \<Rightarrow>
        let restTokens = drop i tokens;
            lk = filter (\<lambda>n. n \<in> set INLINE_KEYS) (map normalizeIvxToken restTokens);
            userTokens = filter (\<lambda>t. normalizeIvxToken t \<notin> set INLINE_KEYS) restTokens
        in \<lparr> speckey = sk, nodekey = nk, linekey = lk,
             trimmedCode = trim (join '' '' userTokens) \<rparr>)"

definition SegGram :: "LogicalSegment \<Rightarrow> Grammar option" where
  "SegGram seg =
     (let trimmed = trim (code seg)
      in if trimmed = [] \<or> list_all (\<lambda>c. c = CHR 0x5C) trimmed then None
         else Some (resolveTokens (splitWs trimmed)))"

definition isElseOrThen :: "string option \<Rightarrow> bool" where
  "isElseOrThen s = (s = Some ''else'' \<or> s = Some ''then'')"

section \<open>graph.ts\<close>

datatype NodeKind = Start | End | Process | Decision | Connector | Input | Output

record Node =
  n_id :: nat
  kind :: NodeKind
  line :: nat
  n_segmentIndex :: nat
  n_indent :: nat
  n_text :: string
  meta :: "string option"

record Edge =
  e_from :: nat
  e_to :: nat
  label :: "string option"

record Graph =
  g_nodes :: "Node list"
  g_edges :: "Edge list"
  startNodeId :: "nat option"
  g_endNodeId :: "nat option"

text \<open>The arity table; \<open>None\<close> as an upper bound is the source's \<open>Infinity\<close>.\<close>

record ArityRule =
  minIn :: nat
  maxIn :: "nat option"
  minOut :: nat
  maxOut :: "nat option"

fun NODE_ARITY_RULES :: "NodeKind \<Rightarrow> ArityRule" where
  "NODE_ARITY_RULES Start = \<lparr> minIn = 0, maxIn = Some 0, minOut = 1, maxOut = Some 1 \<rparr>"
| "NODE_ARITY_RULES End = \<lparr> minIn = 1, maxIn = Some 1, minOut = 0, maxOut = Some 0 \<rparr>"
| "NODE_ARITY_RULES Process = \<lparr> minIn = 1, maxIn = Some 1, minOut = 1, maxOut = Some 1 \<rparr>"
| "NODE_ARITY_RULES Decision = \<lparr> minIn = 1, maxIn = None, minOut = 2, maxOut = None \<rparr>"
| "NODE_ARITY_RULES Connector = \<lparr> minIn = 1, maxIn = None, minOut = 1, maxOut = Some 1 \<rparr>"
| "NODE_ARITY_RULES Input = \<lparr> minIn = 1, maxIn = Some 1, minOut = 1, maxOut = Some 1 \<rparr>"
| "NODE_ARITY_RULES Output = \<lparr> minIn = 1, maxIn = Some 1, minOut = 1, maxOut = Some 1 \<rparr>"

text \<open>A validation message is a template string over six values: the node's id, its kind,
  its line plus one, the count found, whether inputs or outputs were counted, and the
  bound with its direction.  The model keeps the six values.\<close>

datatype Direction = Inputs | Outputs

datatype Bound = AtLeast nat | AtMost nat

record Message =
  m_node :: nat
  m_kind :: NodeKind
  m_line :: nat
  m_count :: nat
  m_direction :: Direction
  m_expected :: Bound

definition metaOrEmpty :: "string option \<Rightarrow> string" where
  \<comment> \<open>\<open>meta ?? ''\<close>\<close>
  "metaOrEmpty m = (case m of None \<Rightarrow> [] | Some t \<Rightarrow> t)"

definition countOrZero :: "(nat \<rightharpoonup> nat) \<Rightarrow> nat \<Rightarrow> nat" where
  \<comment> \<open>\<open>degree.get(k) || 0\<close>\<close>
  "countOrZero m k = (case m k of None \<Rightarrow> 0 | Some c \<Rightarrow> c)"

definition countEdge :: "Edge \<Rightarrow> (nat \<rightharpoonup> nat) \<times> (nat \<rightharpoonup> nat) \<Rightarrow> (nat \<rightharpoonup> nat) \<times> (nat \<rightharpoonup> nat)" where
  \<comment> \<open>the body of the first loop of \<open>validNodeIO\<close>, on the pair (inDegree, outDegree)\<close>
  "countEdge e d =
     (case d of (inDegree, outDegree) \<Rightarrow>
        (inDegree(e_to e \<mapsto> countOrZero inDegree (e_to e) + 1),
         outDegree(e_from e \<mapsto> countOrZero outDegree (e_from e) + 1)))"

definition countDegrees :: "Edge list \<Rightarrow> (nat \<rightharpoonup> nat) \<times> (nat \<rightharpoonup> nat)" where
  "countDegrees es = fold countEdge es (Map.empty, Map.empty)"

fun validNodeIOLoop ::
  "(nat \<rightharpoonup> nat) \<Rightarrow> (nat \<rightharpoonup> nat) \<Rightarrow> Node list \<Rightarrow> Message list \<Rightarrow> Message list" where
  "validNodeIOLoop inDegree outDegree [] errors = errors"
| "validNodeIOLoop inDegree outDegree (node # rest) errors =
     (if includes_s (metaOrEmpty (meta node)) ''fun-body-of='' then
        validNodeIOLoop inDegree outDegree rest errors
      else
        let inCount = countOrZero inDegree (n_id node);
            outCount = countOrZero outDegree (n_id node);
            rules = NODE_ARITY_RULES (kind node);
            info = (\<lambda>c d b. \<lparr> m_node = n_id node, m_kind = kind node, m_line = line node + 1,
                               m_count = c, m_direction = d, m_expected = b \<rparr>);
            errors1 = (if inCount < minIn rules
                       then errors @ [info inCount Inputs (AtLeast (minIn rules))] else errors);
            errors2 = (case maxIn rules of
                         None \<Rightarrow> errors1
                       | Some mx \<Rightarrow> if inCount > mx
                                   then errors1 @ [info inCount Inputs (AtMost mx)] else errors1);
            errors3 = (if outCount < minOut rules
                       then errors2 @ [info outCount Outputs (AtLeast (minOut rules))]
                       else errors2);
            errors4 = (case maxOut rules of
                         None \<Rightarrow> errors3
                       | Some mx \<Rightarrow> if outCount > mx
                                   then errors3 @ [info outCount Outputs (AtMost mx)] else errors3)
        in validNodeIOLoop inDegree outDegree rest errors4)"

definition validNodeIO :: "Node list \<Rightarrow> Edge list \<Rightarrow> Message list" where
  "validNodeIO ns es =
     (case countDegrees es of (inDegree, outDegree) \<Rightarrow> validNodeIOLoop inDegree outDegree ns [])"

section \<open>valid.ts\<close>

definition isNonSentinel :: "Node \<Rightarrow> bool" where
  "isNonSentinel n = (kind n \<noteq> Start \<and> kind n \<noteq> End)"

definition labelOrEmpty :: "string option \<Rightarrow> string" where
  \<comment> \<open>\<open>label ?? ''\<close>\<close>
  "labelOrEmpty l = (case l of None \<Rightarrow> [] | Some t \<Rightarrow> t)"

definition hasEdge :: "Edge list \<Rightarrow> nat \<Rightarrow> nat \<Rightarrow> string option \<Rightarrow> bool" where
  "hasEdge es f t l =
     list_ex (\<lambda>e. e_from e = f \<and> e_to e = t \<and> labelOrEmpty (label e) = labelOrEmpty l) es"

definition isLoopOrNextNode :: "Node option \<Rightarrow> bool" where
  "isLoopOrNextNode node =
     (let m = (case node of None \<Rightarrow> [] | Some n \<Rightarrow> metaOrEmpty (meta n))
      in includes_s m ''inline-loop'' \<or> includes_s m ''inline-next'')"

text \<open>
  Nodes are objects shared between the node array, the cursors and the context stacks,
  and their \<open>meta\<close> is updated in place.  Every node is pushed to the node array when it
  is created and never removed, so the array is the store: a reference to a node is its
  position in \<open>nodes\<close>, and a field is read through the store.
\<close>

type_synonym ref = nat

record GraphBuilder =
  nodes :: "Node list"
  edges :: "Edge list"
  startNode :: ref
  endNodeId :: "nat option"
  nextId :: nat
  lastExecutableNode :: "ref option"
  lastConnectorLikeNode :: "ref option"
  pendingNextNodes :: "ref list"

definition deref :: "GraphBuilder \<Rightarrow> ref \<Rightarrow> Node" where
  "deref b r = nodes b ! r"

definition newGraphBuilder :: GraphBuilder where
  "newGraphBuilder =
     \<lparr> nodes = [\<lparr> n_id = 0, kind = Start, line = 0, n_segmentIndex = 0, n_indent = 0,
                  n_text = [], meta = Some ''implicit start'' \<rparr>],
       edges = [], startNode = 0, endNodeId = None, nextId = 1,
       lastExecutableNode = None, lastConnectorLikeNode = None, pendingNextNodes = [] \<rparr>"

definition appendMeta :: "ref \<Rightarrow> string \<Rightarrow> GraphBuilder \<Rightarrow> GraphBuilder" where
  "appendMeta r extra b =
     b\<lparr> nodes := (nodes b)[r := (deref b r)\<lparr> meta :=
          Some ((case meta (deref b r) of
                   None \<Rightarrow> []
                 | Some m \<Rightarrow> if m = [] then [] else m @ '' '') @ extra) \<rparr>] \<rparr>"

text \<open>\<open>nodes.findIndex\<close>, with \<open>None\<close> for the source's \<open>-1\<close>.\<close>

fun findIndexFrom :: "nat \<Rightarrow> ('a \<Rightarrow> bool) \<Rightarrow> 'a list \<Rightarrow> nat option" where
  "findIndexFrom i P [] = None"
| "findIndexFrom i P (x # xs) = (if P x then Some i else findIndexFrom (Suc i) P xs)"

text \<open>The downward scans of \<open>findPrevSequentialCandidate\<close> and \<open>findLastNonSentinel\<close>:
  positions \<open>i\<close>, \<open>i - 1\<close>, ..., \<open>0\<close>.\<close>

fun scanDownNonSentinel :: "Node list \<Rightarrow> nat \<Rightarrow> ref option" where
  "scanDownNonSentinel ns 0 = (if isNonSentinel (ns ! 0) then Some 0 else None)"
| "scanDownNonSentinel ns (Suc i) =
     (if isNonSentinel (ns ! Suc i) then Some (Suc i) else scanDownNonSentinel ns i)"

definition findPrevSequentialCandidate :: "Node list \<Rightarrow> Node \<Rightarrow> ref option" where
  "findPrevSequentialCandidate ns startN =
     (case findIndexFrom 0 (\<lambda>n. n_id n = n_id startN) ns of
        None \<Rightarrow> None
      | Some idx \<Rightarrow> if idx = 0 then None else scanDownNonSentinel ns (idx - 1))"

definition findLastNonSentinel :: "Node list \<Rightarrow> ref option" where
  "findLastNonSentinel ns = (if ns = [] then None else scanDownNonSentinel ns (length ns - 1))"

definition findNextConnector :: "Node list \<Rightarrow> Node \<Rightarrow> ref option" where
  "findNextConnector ns node =
     fold (\<lambda>(i, cand) best.
             if kind cand \<noteq> Connector then best
             else if line cand \<le> line node then best
             else (case best of
                     None \<Rightarrow> Some i
                   | Some bi \<Rightarrow> if line cand < line (ns ! bi) then Some i else best))
          (enumerate 0 ns) None"

definition pushEdge :: "Edge \<Rightarrow> GraphBuilder \<Rightarrow> GraphBuilder" where
  "pushEdge e b =
     (if hasEdge (edges b) (e_from e) (e_to e) (label e) then b
      else b\<lparr> edges := edges b @ [e] \<rparr>)"

definition makeNode :: "NodeKind \<Rightarrow> LogicalSegment \<Rightarrow> string \<Rightarrow> GraphBuilder \<Rightarrow> ref \<times> GraphBuilder" where
  "makeNode k seg t b =
     (let baseMeta = trim (comment seg);
          node = \<lparr> n_id = nextId b, kind = k, line = physicalLine seg,
                   n_segmentIndex = segmentIndex seg, n_indent = indent seg,
                   n_text = trim t, meta = (if baseMeta = [] then None else Some baseMeta) \<rparr>
      in (length (nodes b), b\<lparr> nextId := nextId b + 1, nodes := nodes b @ [node] \<rparr>))"

definition finalizeNode :: "ref \<Rightarrow> Grammar \<Rightarrow> GraphBuilder \<Rightarrow> GraphBuilder" where
  "finalizeNode r gram b =
     (let b1 = (case lastConnectorLikeNode b of
                  Some target \<Rightarrow>
                    if ''loop'' \<in> set (linekey gram) then
                      appendMeta r ''inline-loop''
                        (if \<not> hasEdge (edges b) (n_id (deref b r)) (n_id (deref b target)) None
                         then pushEdge \<lparr> e_from = n_id (deref b r), e_to = n_id (deref b target),
                                         label = None \<rparr> b
                         else b)
                    else b
                | None \<Rightarrow> b)
      in if ''next'' \<in> set (linekey gram) then
           appendMeta r ''inline-next'' (b1\<lparr> pendingNextNodes := pendingNextNodes b1 @ [r] \<rparr>)
         else b1)"

definition wireSequential :: "ref \<Rightarrow> bool \<Rightarrow> GraphBuilder \<Rightarrow> GraphBuilder" where
  "wireSequential to updateLast b =
     (let from0 = (case lastExecutableNode b of None \<Rightarrow> startNode b | Some r \<Rightarrow> r);
          startAlreadyHasEdge = list_ex (\<lambda>e. e_from e = n_id (deref b (startNode b))) (edges b);
          from1 = (if from0 = startNode b \<and> startAlreadyHasEdge
                   then findLastNonSentinel (nodes b) else Some from0)
      in if from0 = startNode b \<and> startAlreadyHasEdge \<and> from1 = None then b
         else
           let from2 = (if isLoopOrNextNode (map_option (deref b) from1)
                        then (case from1 of
                                None \<Rightarrow> None
                              | Some r \<Rightarrow> findPrevSequentialCandidate (nodes b) (deref b r))
                        else from1);
               from3 = (case from2 of
                          None \<Rightarrow> None
                        | Some r \<Rightarrow> if kind (deref b r) = Decision
                                    then findPrevSequentialCandidate (nodes b) (deref b r)
                                    else Some r)
           in if kind (deref b to) = Connector then
                (if updateLast \<and> \<not> isLoopOrNextNode (Some (deref b to))
                 then b\<lparr> lastExecutableNode := Some to \<rparr> else b)
              else
                let b1 = (case from3 of
                            None \<Rightarrow> b
                          | Some r \<Rightarrow> pushEdge \<lparr> e_from = n_id (deref b r),
                                                e_to = n_id (deref b to), label = None \<rparr> b)
                in if updateLast \<and> \<not> isLoopOrNextNode (Some (deref b to))
                   then b1\<lparr> lastExecutableNode := Some to \<rparr> else b1)"

definition createImplicitEnd :: "nat \<Rightarrow> nat \<Rightarrow> string \<Rightarrow> GraphBuilder \<Rightarrow> ref \<times> GraphBuilder" where
  "createImplicitEnd ln segIdx m b =
     (let implicitEnd = \<lparr> n_id = nextId b, kind = End, line = ln, n_segmentIndex = segIdx,
                          n_indent = 0, n_text = [], meta = Some m \<rparr>
      in (length (nodes b),
          b\<lparr> nextId := nextId b + 1, nodes := nodes b @ [implicitEnd],
             endNodeId := Some (n_id implicitEnd) \<rparr>))"

subsection \<open>Connector fan-in\<close>

text \<open>The backward scan for the window's lower bound: lines \<open>n - 1\<close>, ..., \<open>0\<close>; the
  result stays 0 when no line has a boundary node.\<close>

fun scanStartLine :: "Node list \<Rightarrow> nat \<Rightarrow> nat \<Rightarrow> nat" where
  "scanStartLine ns k 0 = 0"
| "scanStartLine ns k (Suc i) =
     (case find (\<lambda>n. line n = i \<and> n_indent n = k \<and> (kind n = Decision \<or> kind n = Connector)) ns of
        Some boundary \<Rightarrow> line boundary
      | None \<Rightarrow> scanStartLine ns k i)"

definition faninWindow :: "Node list \<Rightarrow> Node \<Rightarrow> Node list" where
  "faninWindow ns connectorNode =
     (let k = n_indent connectorNode;
          startLine = scanStartLine ns k (line connectorNode)
      in filter (\<lambda>n. n_id n \<noteq> n_id connectorNode \<and> isNonSentinel n \<and> n_indent n = k \<and>
                      line n > startLine \<and> line n \<le> line connectorNode) ns)"

definition succsInWindow :: "Edge list \<Rightarrow> nat list \<Rightarrow> nat \<Rightarrow> nat list" where
  \<comment> \<open>\<open>succsInWindow.get(i) ?? []\<close>: the targets, in edge order, of the edges from \<open>i\<close>
      with both ends in the window\<close>
  "succsInWindow es faninIds i =
     map e_to (filter (\<lambda>e. e_from e \<in> set faninIds \<and> e_to e \<in> set faninIds \<and> e_from e = i) es)"

text \<open>The \<open>while\<close> loop of \<open>canReachFeeder\<close>.  The stack is a list with its top first, so
  pushing the successors one by one leaves them reversed in front of the rest.\<close>

function canReachFeederLoop ::
  "Edge list \<Rightarrow> nat list \<Rightarrow> nat \<Rightarrow> nat list \<Rightarrow> nat list \<Rightarrow> nat list \<Rightarrow> bool" where
  "canReachFeederLoop es faninIds startId feederIds visited [] = False"
| "canReachFeederLoop es faninIds startId feederIds visited (i # stack) =
     (if i \<in> set visited then canReachFeederLoop es faninIds startId feederIds visited stack
      else if i \<noteq> startId \<and> i \<in> set feederIds then True
      else canReachFeederLoop es faninIds startId feederIds (i # visited)
             (rev (filter (\<lambda>nxt. nxt \<notin> set (i # visited)) (succsInWindow es faninIds i)) @ stack))"
  by pat_completeness auto
termination
proof (relation "inv_image (less_than <*lex*> less_than)
                   (\<lambda>(es, faninIds, startId, feederIds, visited, stack).
                      (card ((e_to ` set es \<union> set stack) - set visited), length stack))",
       goal_cases)
  case 1
  show ?case by (intro wf_inv_image wf_lex_prod wf_less_than)
next
  case (2 es faninIds startId feederIds visited i stack)
  have "(e_to ` set es \<union> set stack) - set visited \<subseteq> (e_to ` set es \<union> set (i # stack)) - set visited"
    by auto
  then have "card ((e_to ` set es \<union> set stack) - set visited)
               \<le> card ((e_to ` set es \<union> set (i # stack)) - set visited)"
    by (intro card_mono) auto
  then show ?case by auto
next
  case (3 es faninIds startId feederIds visited i stack)
  let ?new = "rev (filter (\<lambda>nxt. nxt \<notin> set (i # visited)) (succsInWindow es faninIds i)) @ stack"
  have sub: "(e_to ` set es \<union> set ?new) - set (i # visited)
               \<subseteq> ((e_to ` set es \<union> set (i # stack)) - set visited) - {i}"
    by (auto simp: succsInWindow_def)
  have mem: "i \<in> (e_to ` set es \<union> set (i # stack)) - set visited"
    using 3 by simp
  have "card ((e_to ` set es \<union> set ?new) - set (i # visited))
          \<le> card (((e_to ` set es \<union> set (i # stack)) - set visited) - {i})"
    using sub by (intro card_mono) auto
  also have "\<dots> < card ((e_to ` set es \<union> set (i # stack)) - set visited)"
    using mem by (intro card_Diff1_less) auto
  finally show ?case by simp
qed

definition canReachFeeder :: "Edge list \<Rightarrow> nat list \<Rightarrow> nat \<Rightarrow> nat list \<Rightarrow> bool" where
  "canReachFeeder es faninIds startId feederIds =
     canReachFeederLoop es faninIds startId feederIds [] [startId]"

text \<open>The loop that removes feeders; \<open>feederIds\<close> is a set, kept as a list.\<close>

fun dropFeeders :: "Edge list \<Rightarrow> nat list \<Rightarrow> Node list \<Rightarrow> nat list \<Rightarrow> nat list" where
  "dropFeeders es faninIds [] feederIds = feederIds"
| "dropFeeders es faninIds (n # rest) feederIds =
     (if n_id n \<notin> set feederIds then dropFeeders es faninIds rest feederIds
      else if canReachFeeder es faninIds (n_id n) feederIds
           then dropFeeders es faninIds rest (removeAll (n_id n) feederIds)
           else dropFeeders es faninIds rest feederIds)"

text \<open>The loop that adds the feeders' edges into the connector.\<close>

fun feedConnector :: "nat list \<Rightarrow> nat \<Rightarrow> Node list \<Rightarrow> GraphBuilder \<Rightarrow> GraphBuilder" where
  "feedConnector feederIds connectorId [] b = b"
| "feedConnector feederIds connectorId (n # rest) b =
     (if isLoopOrNextNode (Some n) then feedConnector feederIds connectorId rest b
      else if n_id n \<notin> set feederIds then feedConnector feederIds connectorId rest b
      else if \<not> hasEdge (edges b) (n_id n) connectorId None
           then feedConnector feederIds connectorId rest
                  (pushEdge \<lparr> e_from = n_id n, e_to = connectorId, label = None \<rparr> b)
           else feedConnector feederIds connectorId rest b)"

definition computeConnectorFanin :: "ref \<Rightarrow> GraphBuilder \<Rightarrow> GraphBuilder" where
  "computeConnectorFanin c b =
     (let connectorNode = deref b c;
          window = faninWindow (nodes b) connectorNode;
          faninIds = map n_id window;
          feederIds = dropFeeders (edges b) faninIds window faninIds;
          b1 = feedConnector feederIds (n_id connectorNode) window b;
          connectorHasOut = list_ex (\<lambda>e. e_from e = n_id connectorNode) (edges b1)
      in if \<not> connectorHasOut then
           (case find (\<lambda>n. n_id n \<noteq> n_id connectorNode \<and> isNonSentinel n \<and>
                            n_indent n = n_indent connectorNode \<and> line n > line connectorNode)
                      (nodes b1) of
              Some nextAtIndent \<Rightarrow>
                pushEdge \<lparr> e_from = n_id connectorNode, e_to = n_id nextAtIndent, label = None \<rparr> b1
            | None \<Rightarrow> b1)
         else b1)"

section \<open>parser.ts\<close>

text \<open>The two context stacks are lists with the top first.  \<open>tails\<close> is a \<open>Map\<close>; it is
  kept as an association list in insertion order, which is the order of its \<open>values()\<close>.\<close>

record DecisionContext =
  header :: ref
  branches :: "ref list"
  tails :: "(nat \<times> ref) list"
  labels :: "string list option"
  branchIndent :: "nat option"
  hasExplicitSpec :: bool

record FunContext =
  f_header :: ref
  bodyNodeIds :: "nat list"
  lastBodyNodeId :: "nat option"

record ParserState =
  gb :: GraphBuilder
  lastNode :: "ref option"
  currentBranchIndex :: "nat option"
  decisionStack :: "DecisionContext list"
  funStack :: "FunContext list"

text \<open>The only fault of the driver: a non-null assertion on an absent value.\<close>

datatype fault = NullAssertion

fun tailsSet :: "nat \<Rightarrow> ref \<Rightarrow> (nat \<times> ref) list \<Rightarrow> (nat \<times> ref) list" where
  "tailsSet k v [] = [(k, v)]"
| "tailsSet k v ((k', v') # ts) = (if k' = k then (k, v) # ts else (k', v') # tailsSet k v ts)"

definition inDecisionRange :: "GraphBuilder \<Rightarrow> DecisionContext \<Rightarrow> LogicalSegment \<Rightarrow> bool" where
  "inDecisionRange b ctx seg =
     (let baseIndent = (case branchIndent ctx of
                          Some bi \<Rightarrow> bi
                        | None \<Rightarrow> n_indent (deref b (header ctx)))
      in indent seg \<ge> baseIndent)"

definition registerInFun :: "ref \<Rightarrow> ParserState \<Rightarrow> ParserState" where
  "registerInFun node s =
     (case funStack s of
        [] \<Rightarrow> s
      | topFun # rest \<Rightarrow>
          let b = gb s;
              headerId = n_id (deref b (f_header topFun));
              fromId = (case lastBodyNodeId topFun of None \<Rightarrow> headerId | Some i \<Rightarrow> i);
              fromNode = find (\<lambda>n. n_id n = fromId) (nodes b);
              m = (case fromNode of None \<Rightarrow> [] | Some n \<Rightarrow> metaOrEmpty (meta n));
              isLoopOrNext = (includes_s m ''inline-loop'' \<or> includes_s m ''inline-next'');
              b1 = (if fromNode \<noteq> None \<and> \<not> isLoopOrNext
                    then pushEdge \<lparr> e_from = fromId, e_to = n_id (deref b node), label = None \<rparr> b
                    else b);
              topFun' = topFun\<lparr> bodyNodeIds := bodyNodeIds topFun @ [n_id (deref b node)],
                                 lastBodyNodeId := Some (n_id (deref b node)) \<rparr>
          in s\<lparr> gb := appendMeta node (''fun-body-of='' @ showNat headerId) b1,
                funStack := topFun' # rest \<rparr>)"

definition createExecutableNode ::
  "NodeKind \<Rightarrow> LogicalSegment \<Rightarrow> string \<Rightarrow> Grammar \<Rightarrow> bool \<Rightarrow> ParserState \<Rightarrow> ref \<times> ParserState" where
  "createExecutableNode k seg t gram skipFunRegister s =
     (case makeNode k seg t (gb s) of (node, b1) \<Rightarrow>
        let s1 = s\<lparr> gb := finalizeNode node gram b1, lastNode := Some node \<rparr>
        in (node, if \<not> skipFunRegister then registerInFun node s1 else s1))"

text \<open>The \<open>while\<close> loop of \<open>popObsoleteDecisions\<close>, on the stack it pops from.\<close>

definition cutoffOf :: "GraphBuilder \<Rightarrow> DecisionContext \<Rightarrow> nat" where
  \<comment> \<open>\<open>top.branchIndent ?? top.header.indent\<close>\<close>
  "cutoffOf b topCtx =
     (case branchIndent topCtx of Some bi \<Rightarrow> bi | None \<Rightarrow> n_indent (deref b (header topCtx)))"

fun popObsoleteLoop ::
  "LogicalSegment \<Rightarrow> string option \<Rightarrow> DecisionContext list \<Rightarrow> ParserState \<Rightarrow> ParserState" where
  "popObsoleteLoop seg sk [] s = s\<lparr> decisionStack := [] \<rparr>"
| "popObsoleteLoop seg sk (topCtx # rest) s =
     (if indent seg < cutoffOf (gb s) topCtx then
        popObsoleteLoop seg sk rest (s\<lparr> currentBranchIndex := None \<rparr>)
      else if indent seg = cutoffOf (gb s) topCtx \<and> \<not> isElseOrThen sk \<and> hasExplicitSpec topCtx then
        popObsoleteLoop seg sk rest
          (s\<lparr> gb := (gb s)\<lparr> lastExecutableNode :=
                       Some (if tails topCtx = [] then header topCtx
                             else snd (last (tails topCtx))) \<rparr>,
              currentBranchIndex := None \<rparr>)
      else s\<lparr> decisionStack := topCtx # rest \<rparr>)"

definition popObsoleteDecisions :: "LogicalSegment \<Rightarrow> string option \<Rightarrow> ParserState \<Rightarrow> ParserState" where
  "popObsoleteDecisions seg sk s = popObsoleteLoop seg sk (decisionStack s) s"

text \<open>The two attach functions update the context they are given, which is the top of
  the decision stack; they return it with the builder and the \<open>AttachResult\<close>
  (branchIndex, lastExecutableNode).\<close>

definition attachElseNodeToDecision ::
  "DecisionContext \<Rightarrow> ref \<Rightarrow> GraphBuilder
     \<Rightarrow> DecisionContext \<times> GraphBuilder \<times> nat option \<times> ref option" where
  "attachElseNodeToDecision ctx node b =
     (let branchIndex = length (branches ctx);
          edge = \<lparr> e_from = n_id (deref b (header ctx)), e_to = n_id (deref b node),
                   label = (case labels ctx of
                              None \<Rightarrow> None
                            | Some ls \<Rightarrow> if branchIndex < length ls
                                         then Some (ls ! branchIndex) else None) \<rparr>
      in (ctx\<lparr> branches := branches ctx @ [node],
               tails := tailsSet branchIndex node (tails ctx),
               hasExplicitSpec := True \<rparr>,
          pushEdge edge b, Some branchIndex, Some node))"

definition attachThenNodeToDecision ::
  "DecisionContext \<Rightarrow> ref \<Rightarrow> nat option \<Rightarrow> GraphBuilder
     \<Rightarrow> DecisionContext \<times> GraphBuilder \<times> nat option \<times> ref option" where
  "attachThenNodeToDecision ctx node cbi b =
     (let branchIndex = (if cbi = None \<and> length (branches ctx) > 0
                         then Some (length (branches ctx) - 1) else cbi);
          tail = (case branchIndex of None \<Rightarrow> None | Some bi \<Rightarrow> map_of (tails ctx) bi)
      in case (branchIndex, tail) of
           (Some bi, Some tailN) \<Rightarrow>
             (ctx\<lparr> tails := tailsSet bi node (tails ctx), hasExplicitSpec := True \<rparr>,
              pushEdge \<lparr> e_from = n_id (deref b tailN), e_to = n_id (deref b node), label = None \<rparr> b,
              Some bi, Some node)
         | _ \<Rightarrow>
             (let b1 = wireSequential node True b
              in (ctx, b1, None, lastExecutableNode b1)))"

text \<open>The branch on \<open>speckey\<close> that \<open>wireIntoDecisionIfAny\<close> and the decision handler both
  contain, with the writes to \<open>currentBranchIndex\<close>, to the cursor and to the context
  on top of the stack.\<close>

definition attachBySpeckey ::
  "string option \<Rightarrow> DecisionContext \<Rightarrow> DecisionContext list \<Rightarrow> ref \<Rightarrow> ParserState \<Rightarrow> ParserState" where
  "attachBySpeckey sk ctx rest node s =
     (if sk = Some ''else'' then
        (case attachElseNodeToDecision ctx node (gb s) of (ctx', b', bi, le) \<Rightarrow>
           s\<lparr> gb := b', decisionStack := ctx' # rest, currentBranchIndex := bi \<rparr>)
      else
        (case attachThenNodeToDecision ctx node (currentBranchIndex s) (gb s) of (ctx', b', bi, le) \<Rightarrow>
           s\<lparr> gb := b'\<lparr> lastExecutableNode := le \<rparr>, decisionStack := ctx' # rest,
              currentBranchIndex := bi \<rparr>))"

definition wireIntoDecisionIfAny ::
  "ref \<Rightarrow> LogicalSegment \<Rightarrow> string option \<Rightarrow> ParserState \<Rightarrow> bool \<times> ParserState" where
  "wireIntoDecisionIfAny node seg sk s =
     (case decisionStack s of
        [] \<Rightarrow> (False, s)
      | ctx # rest \<Rightarrow>
          if \<not> isElseOrThen sk \<or> \<not> inDecisionRange (gb s) ctx seg then (False, s)
          else (True, attachBySpeckey sk ctx rest node s))"

definition wireIfNotInFun :: "ref \<Rightarrow> ParserState \<Rightarrow> ParserState" where
  \<comment> \<open>\<open>if (!inFun()) gb.wireSequential(node)\<close>\<close>
  "wireIfNotInFun node s =
     (if funStack s = [] then s\<lparr> gb := wireSequential node True (gb s) \<rparr> else s)"

definition handleExecutableNode ::
  "NodeKind \<Rightarrow> LogicalSegment \<Rightarrow> Grammar \<Rightarrow> string \<Rightarrow> string option \<Rightarrow> ParserState \<Rightarrow> ParserState" where
  "handleExecutableNode k seg gram t sk s =
     (case createExecutableNode k seg t gram False s of (node, s1) \<Rightarrow>
        let wired = wireIntoDecisionIfAny node seg sk s1
        in if fst wired then snd wired
           else wireIfNotInFun node (popObsoleteDecisions seg sk (snd wired)))"

definition handleBareElseThen :: "LogicalSegment \<Rightarrow> Grammar \<Rightarrow> ParserState \<Rightarrow> ParserState" where
  "handleBareElseThen seg gram s =
     (let sk = speckey gram; t = trimmedCode gram;
          s1 = popObsoleteDecisions seg sk s
      in case decisionStack s1 of
           [] \<Rightarrow> handleExecutableNode Process seg gram t sk s1
         | ctx # rest \<Rightarrow>
             let ctx1 = (if sk = Some ''else'' \<and> branchIndent ctx = None
                         then ctx\<lparr> branchIndent := Some (indent seg) \<rparr> else ctx);
                 s2 = s1\<lparr> decisionStack := ctx1 # rest \<rparr>
             in if indent seg < n_indent (deref (gb s2) (header ctx1)) then
                  handleExecutableNode Process seg gram t sk s2
                else
                  (case createExecutableNode Process seg t gram False s2 of (node, s3) \<Rightarrow>
                     let wired = wireIntoDecisionIfAny node seg sk s3
                     in if fst wired then snd wired else wireIfNotInFun node (snd wired)))"

definition endsWithBrace :: "string \<Rightarrow> bool" where
  \<comment> \<open>\<open>/\}\s*$/.test(t)\<close>: the last character that is not white space is a closing brace\<close>
  "endsWithBrace t = (case dropWhile isSpace (rev t) of [] \<Rightarrow> False | c # _ \<Rightarrow> c = CHR ''}'')"

definition closeFun :: "LogicalSegment \<Rightarrow> ParserState \<Rightarrow> fault + bool \<times> ParserState" where
  "closeFun seg s =
     (case funStack s of
        [] \<Rightarrow> Inr (False, s)
      | funCtx # rest \<Rightarrow>
          let trimmedEnd = trimEnd (code seg)
          in if \<not> endsWithBrace trimmedEnd then Inr (False, s)
             else
               let s1 = s\<lparr> funStack := rest \<rparr>
               in if length (bodyNodeIds funCtx) > 0 then
                    let hd_r = f_header funCtx;
                        s2 = s1\<lparr> gb := appendMeta hd_r
                               (''fun-body=['' @ join '','' (map showNat (bodyNodeIds funCtx)) @ '']'')
                               (gb s1) \<rparr>;
                        footerText = trim trimmedEnd;
                        footerGram = \<lparr> speckey = None, nodekey = None, linekey = [],
                                       trimmedCode = footerText \<rparr>
                    in case createExecutableNode Process seg footerText footerGram True s2 of
                         (footerNode, s3) \<Rightarrow>
                           let b4 = appendMeta footerNode
                                      (''fun-footer-of='' @ showNat (n_id (deref (gb s3) hd_r))) (gb s3)
                           in (case lastBodyNodeId funCtx of
                                 None \<Rightarrow> Inl NullAssertion
                               | Some lastBodyId \<Rightarrow>
                                   Inr (True,
                                        s3\<lparr> gb := (pushEdge \<lparr> e_from = lastBodyId,
                                                              e_to = n_id (deref b4 footerNode),
                                                              label = None \<rparr> b4)
                                                    \<lparr> lastExecutableNode := Some footerNode \<rparr>,
                                            currentBranchIndex := None \<rparr>))
                  else Inr (True, s1\<lparr> currentBranchIndex := None \<rparr>))"

text \<open>The handlers of the main loop, one per \<open>nodekey\<close>; in the source they are the
  blocks of the loop body.\<close>

definition handleFun :: "LogicalSegment \<Rightarrow> Grammar \<Rightarrow> ParserState \<Rightarrow> ParserState" where
  "handleFun seg gram s =
     (let afterFun0 = trim (trimmedCode gram);
          isCollapsed = startsWith afterFun0 ''!'';
          afterFun = (if isCollapsed then dropWhile isSpace (drop 1 afterFun0) else afterFun0);
          funName = trim afterFun;
          headerText = (if isCollapsed then ''fun! '' @ funName else ''fun '' @ funName)
      in case createExecutableNode Process seg headerText
                \<lparr> speckey = speckey gram, nodekey = None, linekey = linekey gram,
                  trimmedCode = headerText \<rparr> True s of
           (funNode, s1) \<Rightarrow>
             let b2 = appendMeta funNode
                        (''fun-block '' @ (if isCollapsed then ''collapsed'' else ''expanded''))
                        (gb s1)
             in s1\<lparr> gb := wireSequential funNode True b2,
                    funStack := \<lparr> f_header = funNode, bodyNodeIds = [], lastBodyNodeId = None \<rparr>
                                  # funStack s1,
                    currentBranchIndex := None \<rparr>)"

definition handleEnd :: "LogicalSegment \<Rightarrow> Grammar \<Rightarrow> ParserState \<Rightarrow> ParserState" where
  "handleEnd seg gram s =
     (case createExecutableNode End seg (trimmedCode gram) gram False s of (endNode, s1) \<Rightarrow>
        let s2 = s1\<lparr> gb := appendMeta endNode ''explicit end'' (gb s1) \<rparr>;
            inRange = (case decisionStack s2 of
                         [] \<Rightarrow> False
                       | ctx # rest \<Rightarrow> inDecisionRange (gb s2) ctx seg)
        in if inRange then
             let s3 = (if speckey gram = Some ''else'' \<or> speckey gram = Some ''then''
                       then snd (wireIntoDecisionIfAny endNode seg (speckey gram) s2)
                       else s2\<lparr> currentBranchIndex := None \<rparr>)
             in s3\<lparr> gb := (gb s3)\<lparr> lastExecutableNode := None \<rparr> \<rparr>
           else
             s2\<lparr> currentBranchIndex := None,
                 gb := (gb s2)\<lparr> lastExecutableNode :=
                          findPrevSequentialCandidate (nodes (gb s2)) (deref (gb s2) endNode) \<rparr> \<rparr>)"

definition handleDecision :: "LogicalSegment \<Rightarrow> Grammar \<Rightarrow> ParserState \<Rightarrow> ParserState" where
  "handleDecision seg gram s =
     (let sk = speckey gram;
          s1 = (popObsoleteDecisions seg sk s)\<lparr> currentBranchIndex := None \<rparr>;
          headerText = trimmedCode gram;
          lbls = splitDecisionLabels headerText
      in case createExecutableNode Decision seg headerText gram False s1 of
           (decisionNode, s2) \<Rightarrow>
             let inOuterRange = (case decisionStack s2 of
                                   [] \<Rightarrow> False
                                 | outerCtx # rest \<Rightarrow> inDecisionRange (gb s2) outerCtx seg);
                 s3 = (if inOuterRange \<and> isElseOrThen sk then
                         (case decisionStack s2 of
                            [] \<Rightarrow> s2
                          | outerCtx # rest \<Rightarrow> attachBySpeckey sk outerCtx rest decisionNode s2)
                       else wireIfNotInFun decisionNode s2);
                 ctx = \<lparr> header = decisionNode, branches = [], tails = [],
                         labels = (if length lbls > 1 then Some lbls else None),
                         branchIndent = None, hasExplicitSpec = False \<rparr>;
                 b4 = (if length lbls > 1
                       then (gb s3)\<lparr> nodes := (nodes (gb s3))[decisionNode :=
                               (deref (gb s3) decisionNode)\<lparr> meta :=
                                  Some (''labels: ['' @ join '', '' lbls @ '']'') \<rparr>] \<rparr>
                       else gb s3)
             in s3\<lparr> gb := b4, decisionStack := ctx # decisionStack s3 \<rparr>)"

definition handleConnector :: "LogicalSegment \<Rightarrow> Grammar \<Rightarrow> ParserState \<Rightarrow> ParserState" where
  "handleConnector seg gram s =
     (let connectorText = trimmedCode gram
      in case createExecutableNode Connector seg
                (if connectorText = [] then ''ii'' else connectorText) gram False s of
           (connectorNode, s1) \<Rightarrow>
             let s2 = s1\<lparr> gb := (gb s1)\<lparr> lastConnectorLikeNode := Some connectorNode,
                                         lastExecutableNode := Some connectorNode \<rparr> \<rparr>;
                 s3 = popObsoleteDecisions seg (speckey gram) s2;
                 s4 = s3\<lparr> gb := (computeConnectorFanin connectorNode (gb s3))
                                   \<lparr> lastExecutableNode := Some connectorNode \<rparr> \<rparr>
             in if funStack s4 = [] then s4\<lparr> gb := wireSequential connectorNode True (gb s4) \<rparr>
                else s4)"

definition dispatchSegment :: "LogicalSegment \<Rightarrow> Grammar \<Rightarrow> ParserState \<Rightarrow> ParserState" where
  "dispatchSegment seg gram s =
     (if nodekey gram = Some ''fun'' then handleFun seg gram s
      else if isElseOrThen (speckey gram) \<and> nodekey gram = None then handleBareElseThen seg gram s
      else if nodekey gram = Some ''end'' then handleEnd seg gram s
      else if nodekey gram = Some ''im'' \<or> nodekey gram = Some ''ex'' then
        handleExecutableNode (if nodekey gram = Some ''im'' then Input else Output)
          seg gram (trimmedCode gram) (speckey gram) s
      else if nodekey gram = Some ''dec'' then handleDecision seg gram s
      else if nodekey gram = Some ''ii'' then handleConnector seg gram s
      else handleExecutableNode Process seg gram (trimmedCode gram) (speckey gram) s)"

definition processSegment :: "LogicalSegment \<Rightarrow> ParserState \<Rightarrow> fault + ParserState" where
  "processSegment seg s =
     (if trim (code seg) = [] \<and> trim (comment seg) \<noteq> [] then
        Inr (case lastNode s of
               None \<Rightarrow> s
             | Some r \<Rightarrow> s\<lparr> gb := appendMeta r (trim (comment seg)) (gb s) \<rparr>)
      else
        (case closeFun seg s of
           Inl f \<Rightarrow> Inl f
         | Inr closed \<Rightarrow>
             if fst closed then Inr (snd closed)
             else (case SegGram seg of
                     None \<Rightarrow> Inr (snd closed)
                   | Some gram \<Rightarrow> Inr (dispatchSegment seg gram (snd closed)))))"

fun parseLoop :: "LogicalSegment list \<Rightarrow> ParserState \<Rightarrow> fault + ParserState" where
  "parseLoop [] s = Inr s"
| "parseLoop (seg # segs) s =
     (case processSegment seg s of Inl f \<Rightarrow> Inl f | Inr s1 \<Rightarrow> parseLoop segs s1)"

definition resolvePendingNext :: "ref \<Rightarrow> GraphBuilder \<Rightarrow> GraphBuilder" where
  "resolvePendingNext node b =
     (case findNextConnector (nodes b) (deref b node) of
        None \<Rightarrow> b
      | Some nextConn \<Rightarrow>
          if \<not> list_ex (\<lambda>e. e_from e = n_id (deref b node) \<and> e_to e = n_id (deref b nextConn)) (edges b)
          then pushEdge \<lparr> e_from = n_id (deref b node), e_to = n_id (deref b nextConn),
                          label = None \<rparr> b
          else b)"

definition finalizeGraph :: "GraphBuilder \<Rightarrow> Graph" where
  "finalizeGraph b0 =
     (let b1 = fold resolvePendingNext (pendingNextNodes b0) b0;
          startN = deref b1 (startNode b1);
          nonStartEnd = filter isNonSentinel (nodes b1);
          startHasEdge = list_ex (\<lambda>e. e_from e = n_id startN) (edges b1);
          b2 = (case nonStartEnd of
                  [] \<Rightarrow> b1
                | first # _ \<Rightarrow>
                    if \<not> startHasEdge
                    then pushEdge \<lparr> e_from = n_id startN, e_to = n_id first, label = None \<rparr> b1
                    else b1);
          b3 = (case nonStartEnd of
                  first # second # _ \<Rightarrow>
                    if kind second = Connector \<and>
                       \<not> list_ex (\<lambda>e. e_from e = n_id first \<and> e_to e = n_id second) (edges b2)
                    then pushEdge \<lparr> e_from = n_id first, e_to = n_id second, label = None \<rparr> b2
                    else b2
                | _ \<Rightarrow> b2);
          executableNodes = filter (\<lambda>n. kind n \<noteq> End) (nodes b3);
          fallthroughNode = (if length executableNodes > 0 then last executableNodes else startN);
          endLabel = (if length executableNodes > 0 then ''implicit end''
                      else ''implicit end (empty doc)'')
      in case createImplicitEnd (line fallthroughNode) (n_segmentIndex fallthroughNode) endLabel b3 of
           (implicitEnd, b4) \<Rightarrow>
             let b5 = pushEdge \<lparr> e_from = n_id fallthroughNode, e_to = n_id (deref b4 implicitEnd),
                                 label = None \<rparr> b4
             in \<lparr> g_nodes = nodes b5, g_edges = edges b5,
                  startNodeId = Some (n_id (deref b5 (startNode b5))),
                  g_endNodeId = Some (n_id (deref b5 implicitEnd)) \<rparr>)"

definition initialState :: ParserState where
  "initialState =
     \<lparr> gb = newGraphBuilder, lastNode = Some (startNode newGraphBuilder),
       currentBranchIndex = None, decisionStack = [], funStack = [] \<rparr>"

definition parseivx :: "string \<Rightarrow> fault + Graph" where
  "parseivx t =
     (case parseLoop (collectSegments t) initialState of
        Inl f \<Rightarrow> Inl f
      | Inr s \<Rightarrow> Inr (finalizeGraph (gb s)))"

section \<open>Specification-side definitions and sample inputs\<close>

text \<open>The position of the first \<open>#\<close> that lies outside single- and double-quoted regions,
  written from the description of the split point rather than from the loop.\<close>

fun firstUnquotedHash :: "bool \<Rightarrow> bool \<Rightarrow> string \<Rightarrow> nat option" where
  "firstUnquotedHash inSingle inDouble [] = None"
| "firstUnquotedHash inSingle inDouble (ch # rest) =
     (if ch = CHR ''#'' \<and> \<not> inSingle \<and> \<not> inDouble then Some 0
      else map_option Suc
             (firstUnquotedHash (if ch = CHR 0x27 \<and> \<not> inDouble then \<not> inSingle else inSingle)
                                (if ch = CHR 0x22 \<and> \<not> inSingle then \<not> inDouble else inDouble) rest))"


text \<open>A segment that carries only code, for stating properties of \<open>SegGram\<close>.\<close>

definition segOfCode :: "string \<Rightarrow> LogicalSegment" where
  "segOfCode c = \<lparr> physicalLine = 0, segmentIndex = 0, indent = 0, raw = c, code = c, comment = [] \<rparr>"


text \<open>A line with a colon inside a quoted string and a colon inside a trailing comment.\<close>

definition quotedColonText :: string where
  "quotedColonText = ''x '' @ [CHR 0x27] @ ''a:b'' @ [CHR 0x27] @ '' # c:d''"


text \<open>A text with every carriage return that stands right before a line feed removed:
  what the lines of the text give when joined with line feeds.\<close>

fun crlfToLf :: "string \<Rightarrow> string" where
  "crlfToLf [] = []"
| "crlfToLf [x] = [x]"
| "crlfToLf (x # y # r) =
     (if x = CHR 0x0D \<and> y = CHR 0x0A then CHR 0x0A # crlfToLf r else x # crlfToLf (y # r))"

text \<open>A text of three lines: a comment on the first, which ends with a carriage return and
  a line feed; a double quote opened and never closed on the second; a comment on the
  third.\<close>

definition commentThenLineText :: string where
  "commentThenLineText =
     ''a # b'' @ [CHR 0x0D, CHR 0x0A] @ ''c '' @ [CHR 0x22] @ ''d'' @ [CHR 0x0A] @ ''e # f''"


text \<open>The degrees of a node as the validator's description has them: the number of edges
  into it and out of it.\<close>

definition inDegreeOf :: "Edge list \<Rightarrow> nat \<Rightarrow> nat" where
  "inDegreeOf es i = length (filter (\<lambda>e. e_to e = i) es)"

definition outDegreeOf :: "Edge list \<Rightarrow> nat \<Rightarrow> nat" where
  "outDegreeOf es i = length (filter (\<lambda>e. e_from e = i) es)"

text \<open>A node is tagged as a function-body member when its meta holds the tag text.\<close>

definition isFunBodyMember :: "Node \<Rightarrow> bool" where
  "isFunBodyMember n = includes_s (metaOrEmpty (meta n)) ''fun-body-of=''"

text \<open>The arity table in the words of the description: exact counts, or a lower bound
  with no upper bound.\<close>

fun inputsAllowed :: "NodeKind \<Rightarrow> nat \<Rightarrow> bool" where
  "inputsAllowed Start c = (c = 0)"
| "inputsAllowed End c = (c = 1)"
| "inputsAllowed Process c = (c = 1)"
| "inputsAllowed Input c = (c = 1)"
| "inputsAllowed Output c = (c = 1)"
| "inputsAllowed Decision c = (c \<ge> 1)"
| "inputsAllowed Connector c = (c \<ge> 1)"

fun outputsAllowed :: "NodeKind \<Rightarrow> nat \<Rightarrow> bool" where
  "outputsAllowed Start c = (c = 1)"
| "outputsAllowed End c = (c = 0)"
| "outputsAllowed Process c = (c = 1)"
| "outputsAllowed Input c = (c = 1)"
| "outputsAllowed Output c = (c = 1)"
| "outputsAllowed Decision c = (c \<ge> 2)"
| "outputsAllowed Connector c = (c = 1)"

text \<open>One message per violated bound, the lower bound first; for a node, inputs first.\<close>

definition boundViolations :: "Node \<Rightarrow> Direction \<Rightarrow> nat \<Rightarrow> nat \<Rightarrow> nat option \<Rightarrow> Message list" where
  "boundViolations n d c lo hi =
     (if c < lo then [\<lparr> m_node = n_id n, m_kind = kind n, m_line = line n + 1, m_count = c,
                        m_direction = d, m_expected = AtLeast lo \<rparr>] else [])
     @ (case hi of
          None \<Rightarrow> []
        | Some h \<Rightarrow> if c > h then [\<lparr> m_node = n_id n, m_kind = kind n, m_line = line n + 1,
                                     m_count = c, m_direction = d, m_expected = AtMost h \<rparr>]
                    else [])"

definition nodeViolations :: "Edge list \<Rightarrow> Node \<Rightarrow> Message list" where
  "nodeViolations es n =
     (if isFunBodyMember n then []
      else boundViolations n Inputs (inDegreeOf es (n_id n))
             (minIn (NODE_ARITY_RULES (kind n))) (maxIn (NODE_ARITY_RULES (kind n)))
           @ boundViolations n Outputs (outDegreeOf es (n_id n))
               (minOut (NODE_ARITY_RULES (kind n))) (maxOut (NODE_ARITY_RULES (kind n))))"

text \<open>The graph of the empty document.\<close>

definition emptyDocNodes :: "Node list" where
  "emptyDocNodes =
     [\<lparr> n_id = 0, kind = Start, line = 0, n_segmentIndex = 0, n_indent = 0,
        n_text = [], meta = Some ''implicit start'' \<rparr>,
      \<lparr> n_id = 1, kind = End, line = 0, n_segmentIndex = 0, n_indent = 0,
        n_text = [], meta = Some ''implicit end'' \<rparr>]"

definition emptyDocEdges :: "Edge list" where
  "emptyDocEdges = [\<lparr> e_from = 0, e_to = 1, label = None \<rparr>]"


text \<open>The End node that finalization appends to a node list holding a node of another
  kind: its id is the number of nodes so far, its line and segment index are those of the
  last node that is not an End node, its text is empty and its meta is the end label.\<close>

definition synthesizedEnd :: "Node list \<Rightarrow> Node" where
  "synthesizedEnd ns =
     (let fallthroughNode = last (filter (\<lambda>n. kind n \<noteq> End) ns)
      in \<lparr> n_id = length ns, kind = End, line = line fallthroughNode,
           n_segmentIndex = n_segmentIndex fallthroughNode, n_indent = 0, n_text = [],
           meta = Some ''implicit end'' \<rparr>)"


text \<open>A document whose connector is reached by ordinary flow only: \<open>do a\<close>, then \<open>do b\<close>
  one level deeper, then \<open>ii x\<close> back at the outer level.\<close>

definition strandedConnectorText :: string where
  "strandedConnectorText = ''do a'' @ [CHR 0x0A, CHR 0x09] @ ''do b'' @ [CHR 0x0A] @ ''ii x''"

subsection \<open>Invariants\<close>

text \<open>The identity of an edge: its ends and its label, an absent label read as the empty
  string.\<close>

definition edgeKey :: "Edge \<Rightarrow> nat \<times> nat \<times> string" where
  "edgeKey e = (e_from e, e_to e, labelOrEmpty (label e))"

text \<open>The invariant of the builder: the node at position \<open>i\<close> has id \<open>i\<close>, the next id is
  the number of nodes, the first node is the only Start node, no two edges have the same
  identity, and the start reference is position 0.\<close>

definition gbInv :: "GraphBuilder \<Rightarrow> bool" where
  "gbInv b =
     (map n_id (nodes b) = [0..<length (nodes b)] \<and> nextId b = length (nodes b) \<and>
      (\<exists>ks. map kind (nodes b) = Start # ks \<and> Start \<notin> set ks) \<and>
      distinct (map edgeKey (edges b)) \<and> startNode b = 0)"

text \<open>The invariant of the function stack: a context that has body nodes has a last body
  node.\<close>

definition funInv :: "FunContext list \<Rightarrow> bool" where
  "funInv fs = list_all (\<lambda>f. bodyNodeIds f = [] \<or> lastBodyNodeId f \<noteq> None) fs"

definition pInv :: "ParserState \<Rightarrow> bool" where
  "pInv s = (gbInv (gb s) \<and> funInv (funStack s))"

text \<open>What the invariant gives for the returned graph.\<close>

definition graphInv :: "Graph \<Rightarrow> bool" where
  "graphInv g =
     (map n_id (g_nodes g) = [0..<length (g_nodes g)] \<and>
      (\<exists>ks. map kind (g_nodes g) = Start # ks @ [End] \<and> Start \<notin> set ks) \<and>
      distinct (map edgeKey (g_edges g)) \<and>
      startNodeId g = Some 0 \<and>
      g_endNodeId g = Some (n_id (last (g_nodes g))) \<and>
      n_text (last (g_nodes g)) = [] \<and>
      (meta (last (g_nodes g)) = Some ''implicit end'' \<or>
       meta (last (g_nodes g)) = Some ''implicit end (empty doc)''))"


text \<open>Sample values: an edge, the same edge with an empty label, and a segment that holds
  only line-continuation backslashes.\<close>

definition sampleEdge :: Edge where
  "sampleEdge = \<lparr> e_from = 0, e_to = 1, label = None \<rparr>"

definition sampleEdgeEmptyLabel :: Edge where
  "sampleEdgeEmptyLabel = \<lparr> e_from = 0, e_to = 1, label = Some [] \<rparr>"

definition backslashSegment :: LogicalSegment where
  "backslashSegment = \<lparr> physicalLine = 0, segmentIndex = 0, indent = 0, raw = [CHR 0x5C, CHR 0x5C],
                          code = [CHR 0x5C, CHR 0x5C], comment = [] \<rparr>"


subsection \<open>Connector fan-in and default wiring\<close>

text \<open>The subgraph induced on a set of candidate ids: the edges with both ends among
  them; and the directed walks in it, of any length.\<close>

definition inducedEdges :: "Edge list \<Rightarrow> nat list \<Rightarrow> (nat \<times> nat) list" where
  "inducedEdges es ids =
     map (\<lambda>e. (e_from e, e_to e)) (filter (\<lambda>e. e_from e \<in> set ids \<and> e_to e \<in> set ids) es)"

definition walks :: "Edge list \<Rightarrow> nat list \<Rightarrow> (nat \<times> nat) set" where
  "walks es ids = (set (inducedEdges es ids))\<^sup>*"


text \<open>The candidate ids and the final feeder set that \<open>computeConnectorFanin\<close> computes
  for the connector at reference \<open>c\<close>.\<close>

definition connectorWindowIds :: "GraphBuilder \<Rightarrow> ref \<Rightarrow> nat list" where
  "connectorWindowIds b c = map n_id (faninWindow (nodes b) (deref b c))"

definition connectorFeeders :: "GraphBuilder \<Rightarrow> ref \<Rightarrow> nat list" where
  "connectorFeeders b c =
     dropFeeders (edges b) (connectorWindowIds b c) (faninWindow (nodes b) (deref b c))
       (connectorWindowIds b c)"

text \<open>A document with a two-statement chain before a connector, all at one indentation and
  after line 0, and the builder at the moment fan-in is computed for that connector.\<close>

definition plainNode :: "nat \<Rightarrow> NodeKind \<Rightarrow> nat \<Rightarrow> nat \<Rightarrow> string \<Rightarrow> Node" where
  "plainNode i k ln ind t =
     \<lparr> n_id = i, kind = k, line = ln, n_segmentIndex = 0, n_indent = ind, n_text = t, meta = None \<rparr>"

definition plainEdge :: "nat \<Rightarrow> nat \<Rightarrow> Edge" where
  "plainEdge f t = \<lparr> e_from = f, e_to = t, label = None \<rparr>"

definition chainText :: string where
  "chainText = [CHR 0x0A] @ ''do a'' @ [CHR 0x0A] @ ''do b'' @ [CHR 0x0A] @ ''ii x''"

definition chainBuilder :: GraphBuilder where
  "chainBuilder =
     \<lparr> nodes = [\<lparr> n_id = 0, kind = Start, line = 0, n_segmentIndex = 0, n_indent = 0,
                  n_text = [], meta = Some ''implicit start'' \<rparr>,
                plainNode 1 Process 1 0 ''a'', plainNode 2 Process 2 0 ''b'',
                plainNode 3 Connector 3 0 ''x''],
       edges = [plainEdge 0 1, plainEdge 1 2], startNode = 0, endNodeId = None, nextId = 4,
       lastExecutableNode = Some 3, lastConnectorLikeNode = Some 3, pendingNextNodes = [] \<rparr>"

definition edgeEnds :: "Edge list \<Rightarrow> (nat \<times> nat) list" where
  "edgeEnds es = map (\<lambda>e. (e_from e, e_to e)) es"


text \<open>The connector segment of the document \<open>strandedConnectorText\<close>, its grammar, and the
  driver state before that segment.\<close>

definition connectorSegment :: LogicalSegment where
  "connectorSegment = \<lparr> physicalLine = 2, segmentIndex = 0, indent = 0, raw = ''ii x'',
                         code = ''ii x'', comment = [] \<rparr>"

definition connectorGrammar :: Grammar where
  "connectorGrammar = \<lparr> speckey = None, nodekey = Some ''ii'', linekey = [], trimmedCode = ''x'' \<rparr>"

definition beforeConnector :: ParserState where
  "beforeConnector =
     \<lparr> gb = \<lparr> nodes = [\<lparr> n_id = 0, kind = Start, line = 0, n_segmentIndex = 0, n_indent = 0,
                         n_text = [], meta = Some ''implicit start'' \<rparr>,
                       plainNode 1 Process 0 0 ''a'', plainNode 2 Process 1 1 ''b''],
              edges = [plainEdge 0 1, plainEdge 1 2], startNode = 0, endNodeId = None, nextId = 3,
              lastExecutableNode = Some 2, lastConnectorLikeNode = None, pendingNextNodes = [] \<rparr>,
       lastNode = Some 2, currentBranchIndex = None, decisionStack = [], funStack = [] \<rparr>"

text \<open>The state of the connector handler right before its call of \<open>wireSequential\<close>: the
  connector is created and recorded, obsolete decisions are popped, fan-in is computed
  and the cursor is back on the connector.\<close>

definition connectorBeforeWiring :: "LogicalSegment \<Rightarrow> Grammar \<Rightarrow> ParserState \<Rightarrow> ref \<times> ParserState" where
  "connectorBeforeWiring seg gram s =
     (case createExecutableNode Connector seg
             (if trimmedCode gram = [] then ''ii'' else trimmedCode gram) gram False s of
        (connectorNode, s1) \<Rightarrow>
          let s2 = s1\<lparr> gb := (gb s1)\<lparr> lastConnectorLikeNode := Some connectorNode,
                                      lastExecutableNode := Some connectorNode \<rparr> \<rparr>;
              s3 = popObsoleteDecisions seg (speckey gram) s2
          in (connectorNode,
              s3\<lparr> gb := (computeConnectorFanin connectorNode (gb s3))
                           \<lparr> lastExecutableNode := Some connectorNode \<rparr> \<rparr>))"


section \<open>Properties\<close>

subsection \<open>splitCodeAndComment\<close>

lemma splitCodeAndCommentLoop_char:
  "splitCodeAndCommentLoop cd s d r =
     (case firstUnquotedHash s d r of
        None \<Rightarrow> (cd @ r, [])
      | Some i \<Rightarrow> (cd @ take i r, drop (Suc i) r))"
  by (induction r arbitrary: cd s d) (auto split: option.splits)

lemma firstUnquotedHash_Some:
  "firstUnquotedHash s d r = Some i \<Longrightarrow> i < length r \<and> r ! i = CHR ''#''"
  by (induction r arbitrary: s d i) (auto split: if_splits)

lemma split_at_hash:
  assumes "i < length r" "r ! i = c"
  shows "r = take i r @ c # drop (Suc i) r"
  using assms id_take_nth_drop [of i r] by simp

text \<open>
  Claim C9.  \<open>splitCodeAndComment\<close> loses no character: either the comment is empty and
  the code is the whole input, or the input is the code, one \<open>#\<close>, and the comment.  The
  split point is the first \<open>#\<close> outside single- and double-quoted regions; when there is
  none the whole input is code.
\<close>

theorem splitCodeAndComment_lossless:
  "(snd (splitCodeAndComment r) = [] \<and> fst (splitCodeAndComment r) = r
      \<or> r = fst (splitCodeAndComment r) @ CHR ''#'' # snd (splitCodeAndComment r))
   \<and> splitCodeAndComment r =
       (case firstUnquotedHash False False r of
          None \<Rightarrow> (r, [])
        | Some i \<Rightarrow> (take i r, drop (Suc i) r))"
proof (cases "firstUnquotedHash False False r")
  case None
  then show ?thesis
    by (simp add: splitCodeAndComment_def splitCodeAndCommentLoop_char)
next
  case (Some i)
  from firstUnquotedHash_Some [OF Some] have "r = take i r @ CHR ''#'' # drop (Suc i) r"
    by (simp add: split_at_hash)
  with Some show ?thesis
    by (simp add: splitCodeAndComment_def splitCodeAndCommentLoop_char)
qed

lemma splitAcc_length: "length (splitAcc c cur s) = Suc (count_list s c)"
  by (induction s arbitrary: cur) auto

lemma splitAcc_join: "join [c] (splitAcc c cur s) = cur @ s"
proof (induction s arbitrary: cur)
  case Nil show ?case by simp
next
  case (Cons x xs)
  show ?case
  proof (cases "x = c")
    case True
    obtain p ps where ps: "splitAcc c [] xs = p # ps"
      using splitAcc_length [of c "[]" xs] by (cases "splitAcc c [] xs") auto
    with Cons [of "[]"] True show ?thesis by simp
  next
    case False
    with Cons show ?thesis by simp
  qed
qed

lemma splitAcc_no_sep: "c \<notin> set cur \<Longrightarrow> \<forall>p \<in> set (splitAcc c cur s). c \<notin> set p"
proof (induction s arbitrary: cur)
  case Nil
  then show ?case by simp
next
  case (Cons x xs)
  show ?case
  proof (cases "x = c")
    case True
    with Cons.IH [of "[]"] Cons.prems show ?thesis by simp
  next
    case False
    with Cons.IH [of "cur @ [x]"] Cons.prems show ?thesis by simp
  qed
qed

lemma segmentOfPiece_Some:
  "segmentOfPiece li si p = Some seg \<Longrightarrow>
     \<not> list_all isSpace p \<and> raw seg = dropWhile isBlankChar p \<and>
     physicalLine seg = li \<and> segmentIndex seg = si \<and>
     (code seg, comment seg) = splitCodeAndComment (raw seg)"
  by (auto simp: segmentOfPiece_def Let_def split: if_splits prod.splits)

lemma segmentsOfLine_mem:
  "seg \<in> set (segmentsOfLine li ln) \<Longrightarrow>
     \<exists>si. \<exists>p \<in> set (splitOn CHR '':'' ln). segmentOfPiece li si p = Some seg"
  by (auto simp: segmentsOfLine_def List.map_filter_def in_set_enumerate_eq) (use nth_mem in blast)

lemma collectSegments_mem:
  "seg \<in> set (collectSegments t) \<Longrightarrow>
     \<exists>li. \<exists>ln \<in> set (splitLines t). seg \<in> set (segmentsOfLine li ln)"
  by (auto simp: collectSegments_def in_set_enumerate_eq) (use nth_mem in blast)

lemma dropWhile_subset: "c \<notin> set p \<Longrightarrow> c \<notin> set (dropWhile P p)"
  using set_dropWhileD by fastforce

lemma segmentsOfLine_complete:
  assumes "p \<in> set (splitOn CHR '':'' ln)" "\<not> list_all isSpace p"
  shows "\<exists>seg \<in> set (segmentsOfLine li ln). raw seg = dropWhile isBlankChar p
           \<and> (code seg, comment seg) = splitCodeAndComment (dropWhile isBlankChar p)"
proof -
  from assms(1) obtain i where i: "i < length (splitOn CHR '':'' ln)" "splitOn CHR '':'' ln ! i = p"
    by (auto simp: in_set_conv_nth)
  then have mem: "(i, p) \<in> set (enumerate 0 (splitOn CHR '':'' ln))"
    by (simp add: in_set_enumerate_eq)
  obtain seg where seg: "segmentOfPiece li i p = Some seg"
    using assms(2)
    by (cases "splitCodeAndComment (dropWhile isBlankChar p)") (simp add: segmentOfPiece_def Let_def)
  then have props: "raw seg = dropWhile isBlankChar p"
    "(code seg, comment seg) = splitCodeAndComment (raw seg)"
    using assms(2) by (auto simp: segmentOfPiece_def Let_def split: prod.splits)
  have "seg \<in> set (segmentsOfLine li ln)"
    unfolding segmentsOfLine_def List.map_filter_def
    using mem seg by (force simp: image_iff)
  with props show ?thesis by auto
qed

lemma collectSegments_complete:
  assumes "ln \<in> set (splitLines t)" "p \<in> set (splitOn CHR '':'' ln)" "\<not> list_all isSpace p"
  shows "\<exists>seg \<in> set (collectSegments t). raw seg = dropWhile isBlankChar p
           \<and> (code seg, comment seg) = splitCodeAndComment (dropWhile isBlankChar p)"
proof -
  from assms(1) obtain i where i: "i < length (splitLines t)" "splitLines t ! i = ln"
    by (auto simp: in_set_conv_nth)
  then have mem: "(i, ln) \<in> set (enumerate 0 (splitLines t))"
    by (simp add: in_set_enumerate_eq)
  from segmentsOfLine_complete [OF assms(2,3), of i] obtain seg where
    seg: "seg \<in> set (segmentsOfLine i ln)" "raw seg = dropWhile isBlankChar p"
         "(code seg, comment seg) = splitCodeAndComment (dropWhile isBlankChar p)" by blast
  have "seg \<in> set (collectSegments t)"
    unfolding collectSegments_def using mem seg(1) by force
  with seg show ?thesis by blast
qed

lemma splitLinesAcc_nonempty: "splitLinesAcc cur s \<noteq> []"
  by (induction cur s rule: splitLinesAcc.induct) auto

lemma join_Cons: "xs \<noteq> [] \<Longrightarrow> join sep (x # xs) = x @ sep @ join sep xs"
  by (cases xs) simp_all

lemma splitLinesAcc_no_lf:
  "CHR 0x0A \<notin> set cur \<Longrightarrow> \<forall>ln \<in> set (splitLinesAcc cur s). CHR 0x0A \<notin> set ln"
  by (induction cur s rule: splitLinesAcc.induct) auto

lemma splitLinesAcc_length: "length (splitLinesAcc cur s) = Suc (count_list s (CHR 0x0A))"
  by (induction cur s rule: splitLinesAcc.induct) auto

lemma splitLinesAcc_join: "join [CHR 0x0A] (splitLinesAcc cur s) = cur @ crlfToLf s"
proof (induction cur s rule: splitLinesAcc.induct)
  case (1 cur)
  show ?case by simp
next
  case (2 cur x)
  show ?case by simp
next
  case (3 cur x y ys)
  consider (crlf) "x = CHR 0x0D \<and> y = CHR 0x0A"
    | (lf) "\<not> (x = CHR 0x0D \<and> y = CHR 0x0A)" "x = CHR 0x0A"
    | (other) "\<not> (x = CHR 0x0D \<and> y = CHR 0x0A)" "x \<noteq> CHR 0x0A"
    by blast
  then show ?case
  proof cases
    case crlf
    from 3(1) [OF crlf] crlf show ?thesis
      by (simp add: join_Cons splitLinesAcc_nonempty)
  next
    case lf
    from 3(2) [OF lf] lf show ?thesis
      by (auto simp: join_Cons splitLinesAcc_nonempty)
  next
    case other
    from 3(3) [OF other] other show ?thesis by auto
  qed
qed

lemma splitAcc_chars: "\<forall>p \<in> set (splitAcc c cur s). set p \<subseteq> set cur \<union> set s"
proof (induction s arbitrary: cur)
  case Nil
  show ?case by simp
next
  case (Cons x xs)
  show ?case
  proof (cases "x = c")
    case True
    with Cons [of "[]"] show ?thesis by auto
  next
    case False
    with Cons [of "cur @ [x]"] show ?thesis by auto
  qed
qed

lemma segmentsOfLine_exact:
  "segmentsOfLine li ln =
     map (\<lambda>(si, p).
            \<lparr> physicalLine = li, segmentIndex = si,
              indent = computeIndent (takeWhile isBlankChar p),
              raw = dropWhile isBlankChar p,
              code = fst (splitCodeAndComment (dropWhile isBlankChar p)),
              comment = snd (splitCodeAndComment (dropWhile isBlankChar p)) \<rparr>)
         (filter (\<lambda>(si, p). \<not> list_all isSpace p) (enumerate 0 (splitOn CHR '':'' ln)))"
proof -
  have "List.map_filter (\<lambda>(si, p). segmentOfPiece li si p) xs =
        map (\<lambda>(si, p).
            \<lparr> physicalLine = li, segmentIndex = si,
              indent = computeIndent (takeWhile isBlankChar p),
              raw = dropWhile isBlankChar p,
              code = fst (splitCodeAndComment (dropWhile isBlankChar p)),
              comment = snd (splitCodeAndComment (dropWhile isBlankChar p)) \<rparr>)
         (filter (\<lambda>(si, p). \<not> list_all isSpace p) xs)" for xs
    by (induction xs)
       (auto simp: List.map_filter_def segmentOfPiece_def Let_def split: prod.splits)
  then show ?thesis by (simp add: segmentsOfLine_def)
qed

lemma splitCodeAndComment_chars:
  "set (fst (splitCodeAndComment r)) \<subseteq> set r \<and> set (snd (splitCodeAndComment r)) \<subseteq> set r"
proof (cases "firstUnquotedHash False False r")
  case None
  then show ?thesis by (simp add: splitCodeAndComment_def splitCodeAndCommentLoop_char)
next
  case (Some i)
  have "set (take i r) \<subseteq> set r" "set (drop (Suc i) r) \<subseteq> set r"
    by (rule set_take_subset, rule set_drop_subset)
  with Some show ?thesis by (simp add: splitCodeAndComment_def splitCodeAndCommentLoop_char)
qed

text \<open>
  Claim C10.  A text is cut into lines at every line feed, a carriage return right before
  it going with it: the lines are one more than the line feeds, none holds a line feed,
  and joined with line feeds they give the text back with those carriage returns removed.
  A line is cut at every colon, before any quote or comment analysis: the pieces are one
  more than the colons and give the line back when joined with colons.  The segments of a
  text are, in order and once each, the non-blank pieces of its lines, each with the
  position of its line and of its piece; every segment holds no colon and no line feed,
  and its code and comment are the split of its own raw text from the initial quote state,
  so nothing is carried over from a neighbouring piece or line.  Conversely every
  non-blank piece of every line gives a segment, whatever quotes or comment marks
  precede it on the line.
\<close>

theorem collectSegments_splits_every_colon:
  "length (splitOn CHR '':'' ln) = Suc (count_list ln CHR '':'')
   \<and> join '':'' (splitOn CHR '':'' ln) = ln
   \<and> (\<forall>seg \<in> set (collectSegments t).
         CHR '':'' \<notin> set (raw seg)
         \<and> (code seg, comment seg) = splitCodeAndComment (raw seg)
         \<and> (\<exists>ln \<in> set (splitLines t). \<exists>p \<in> set (splitOn CHR '':'' ln).
                \<not> list_all isSpace p \<and> raw seg = dropWhile isBlankChar p))
   \<and> (\<forall>ln \<in> set (splitLines t). \<forall>p \<in> set (splitOn CHR '':'' ln).
         \<not> list_all isSpace p \<longrightarrow>
           (\<exists>seg \<in> set (collectSegments t). raw seg = dropWhile isBlankChar p
              \<and> (code seg, comment seg) = splitCodeAndComment (dropWhile isBlankChar p)))
   \<and> length (splitLines t) = Suc (count_list t (CHR 0x0A))
   \<and> join [CHR 0x0A] (splitLines t) = crlfToLf t
   \<and> (\<forall>ln \<in> set (splitLines t). CHR 0x0A \<notin> set ln)
   \<and> (\<forall>seg \<in> set (collectSegments t).
         CHR 0x0A \<notin> set (raw seg) \<and> CHR 0x0A \<notin> set (code seg) \<and> CHR 0x0A \<notin> set (comment seg))
   \<and> collectSegments t =
       concat (map (\<lambda>(li, l).
          map (\<lambda>(si, p).
            \<lparr> physicalLine = li, segmentIndex = si,
              indent = computeIndent (takeWhile isBlankChar p),
              raw = dropWhile isBlankChar p,
              code = fst (splitCodeAndComment (dropWhile isBlankChar p)),
              comment = snd (splitCodeAndComment (dropWhile isBlankChar p)) \<rparr>)
            (filter (\<lambda>(si, p). \<not> list_all isSpace p) (enumerate 0 (splitOn CHR '':'' l))))
          (enumerate 0 (splitLines t)))"
proof -
  have p1: "length (splitOn CHR '':'' ln) = Suc (count_list ln CHR '':'')"
    by (simp add: splitOn_def splitAcc_length)
  have p2: "join '':'' (splitOn CHR '':'' ln) = ln"
    by (simp add: splitOn_def splitAcc_join)
  have lf: "\<forall>ln \<in> set (splitLines t). CHR 0x0A \<notin> set ln"
    using splitLinesAcc_no_lf [of "[]" t] by (simp add: splitLines_def)
  have segs: "CHR '':'' \<notin> set (raw seg)
         \<and> (code seg, comment seg) = splitCodeAndComment (raw seg)
         \<and> (\<exists>ln \<in> set (splitLines t). \<exists>p \<in> set (splitOn CHR '':'' ln).
                \<not> list_all isSpace p \<and> raw seg = dropWhile isBlankChar p)
         \<and> CHR 0x0A \<notin> set (raw seg) \<and> CHR 0x0A \<notin> set (code seg) \<and> CHR 0x0A \<notin> set (comment seg)"
    if mem: "seg \<in> set (collectSegments t)" for seg
  proof -
    from mem obtain li l where l: "l \<in> set (splitLines t)" "seg \<in> set (segmentsOfLine li l)"
      using collectSegments_mem by blast
    then obtain si p where p: "p \<in> set (splitOn CHR '':'' l)" "segmentOfPiece li si p = Some seg"
      using segmentsOfLine_mem by blast
    note props = segmentOfPiece_Some [OF p(2)]
    have nocolon: "CHR '':'' \<notin> set p"
      using splitAcc_no_sep [of "CHR '':''" "[]" l] p(1) by (simp add: splitOn_def)
    have "set p \<subseteq> set l"
      using splitAcc_chars [of "CHR '':''" "[]" l] p(1) by (simp add: splitOn_def)
    with lf l(1) have nolf: "CHR 0x0A \<notin> set p" by blast
    have r1: "CHR '':'' \<notin> set (raw seg)"
      using props nocolon by (simp add: dropWhile_subset)
    have r2: "(code seg, comment seg) = splitCodeAndComment (raw seg)"
      using props by simp
    have r3: "\<exists>ln \<in> set (splitLines t). \<exists>p \<in> set (splitOn CHR '':'' ln).
          \<not> list_all isSpace p \<and> raw seg = dropWhile isBlankChar p"
      using l(1) p(1) props by blast
    have r4: "CHR 0x0A \<notin> set (raw seg)"
      using props nolf by (simp add: dropWhile_subset)
    from r2 have "code seg = fst (splitCodeAndComment (raw seg))"
      "comment seg = snd (splitCodeAndComment (raw seg))"
      by (metis fst_conv, metis snd_conv)
    with splitCodeAndComment_chars [of "raw seg"] r4
    have r5: "CHR 0x0A \<notin> set (code seg)" "CHR 0x0A \<notin> set (comment seg)" by auto
    from r1 r2 r3 r4 r5 show ?thesis by (intro conjI)
  qed
  have p3: "\<forall>seg \<in> set (collectSegments t).
         CHR '':'' \<notin> set (raw seg)
         \<and> (code seg, comment seg) = splitCodeAndComment (raw seg)
         \<and> (\<exists>ln \<in> set (splitLines t). \<exists>p \<in> set (splitOn CHR '':'' ln).
                \<not> list_all isSpace p \<and> raw seg = dropWhile isBlankChar p)"
    using segs by blast
  have p4: "\<forall>ln \<in> set (splitLines t). \<forall>p \<in> set (splitOn CHR '':'' ln).
         \<not> list_all isSpace p \<longrightarrow>
           (\<exists>seg \<in> set (collectSegments t). raw seg = dropWhile isBlankChar p
              \<and> (code seg, comment seg) = splitCodeAndComment (dropWhile isBlankChar p))"
    using collectSegments_complete by blast
  have p5: "length (splitLines t) = Suc (count_list t (CHR 0x0A))"
    by (simp add: splitLines_def splitLinesAcc_length)
  have p6: "join [CHR 0x0A] (splitLines t) = crlfToLf t"
    by (simp add: splitLines_def splitLinesAcc_join)
  have p8: "\<forall>seg \<in> set (collectSegments t).
         CHR 0x0A \<notin> set (raw seg) \<and> CHR 0x0A \<notin> set (code seg) \<and> CHR 0x0A \<notin> set (comment seg)"
    using segs by blast
  have p9: "collectSegments t =
       concat (map (\<lambda>(li, l).
          map (\<lambda>(si, p).
            \<lparr> physicalLine = li, segmentIndex = si,
              indent = computeIndent (takeWhile isBlankChar p),
              raw = dropWhile isBlankChar p,
              code = fst (splitCodeAndComment (dropWhile isBlankChar p)),
              comment = snd (splitCodeAndComment (dropWhile isBlankChar p)) \<rparr>)
            (filter (\<lambda>(si, p). \<not> list_all isSpace p) (enumerate 0 (splitOn CHR '':'' l))))
          (enumerate 0 (splitLines t)))"
    by (simp add: collectSegments_def segmentsOfLine_exact)
  from p1 p2 p3 p4 p5 p6 lf p8 p9 show ?thesis by (intro conjI)
qed

text \<open>On the sample line the colon inside the quoted string and the colon inside the
  comment both start a new segment; the second segment begins inside no quote, so its
  \<open>#\<close> lands inside the quote it opens itself.  In the three-line sample the comment of
  the first line stops at the end of that line, and the quote left open on the second line
  does not hide the \<open>#\<close> of the third.\<close>

theorem collectSegments_splits_every_colon_witness:
  "map raw (collectSegments quotedColonText) =
     [''x '' @ [CHR 0x27] @ ''a'', ''b'' @ [CHR 0x27] @ '' # c'', ''d'']
   \<and> map comment (collectSegments quotedColonText) = [[], [], []]
   \<and> length (splitOn CHR '':'' quotedColonText) = Suc (count_list quotedColonText CHR '':'')
   \<and> list_all (\<lambda>seg. CHR '':'' \<notin> set (raw seg)
                      \<and> (code seg, comment seg) = splitCodeAndComment (raw seg))
        (collectSegments quotedColonText)
   \<and> splitLines commentThenLineText = [''a # b'', ''c '' @ [CHR 0x22] @ ''d'', ''e # f'']
   \<and> map (\<lambda>seg. (physicalLine seg, code seg, comment seg)) (collectSegments commentThenLineText)
        = [(0, ''a '', '' b''), (1, ''c '' @ [CHR 0x22] @ ''d'', []), (2, ''e '', '' f'')]
   \<and> list_all (\<lambda>ln. CHR 0x0A \<notin> set ln) (splitLines commentThenLineText)
   \<and> list_all (\<lambda>seg. CHR 0x0A \<notin> set (raw seg)) (collectSegments commentThenLineText)"
proof -
  have ev: "map raw (collectSegments quotedColonText) =
              [''x '' @ [CHR 0x27] @ ''a'', ''b'' @ [CHR 0x27] @ '' # c'', ''d'']"
           "map comment (collectSegments quotedColonText) = [[], [], []]"
           "splitLines commentThenLineText = [''a # b'', ''c '' @ [CHR 0x22] @ ''d'', ''e # f'']"
           "map (\<lambda>seg. (physicalLine seg, code seg, comment seg)) (collectSegments commentThenLineText)
              = [(0, ''a '', '' b''), (1, ''c '' @ [CHR 0x22] @ ''d'', []), (2, ''e '', '' f'')]"
    by code_simp+
  note t1 = collectSegments_splits_every_colon [of quotedColonText quotedColonText]
  note t2 = collectSegments_splits_every_colon [of quotedColonText commentThenLineText]
  from t1 have p1: "length (splitOn CHR '':'' quotedColonText) = Suc (count_list quotedColonText CHR '':'')"
    "list_all (\<lambda>seg. CHR '':'' \<notin> set (raw seg)
                      \<and> (code seg, comment seg) = splitCodeAndComment (raw seg))
        (collectSegments quotedColonText)"
    unfolding list_all_iff by blast+
  from t2 have p2: "list_all (\<lambda>ln. CHR 0x0A \<notin> set ln) (splitLines commentThenLineText)"
    "list_all (\<lambda>seg. CHR 0x0A \<notin> set (raw seg)) (collectSegments commentThenLineText)"
    unfolding list_all_iff by blast+
  from ev p1 p2 show ?thesis by simp
qed

subsection \<open>SegGram\<close>

lemma splitWsAcc_no_space:
  "list_all (\<lambda>c. \<not> isSpace c) s \<Longrightarrow> splitWsAcc cur s = [cur @ s]"
  by (induction s arbitrary: cur) auto

lemma two_tokens_not_backslashes:
  assumes "splitWs s = t0 # t1 # rest"
  shows "s \<noteq> [] \<and> \<not> list_all (\<lambda>c. c = CHR 0x5C) s"
proof -
  have "list_all (\<lambda>c. c = CHR 0x5C) s \<Longrightarrow> list_all (\<lambda>c. \<not> isSpace c) s"
    by (induction s) (auto simp: isSpace_def)
  then have "list_all (\<lambda>c. c = CHR 0x5C) s \<Longrightarrow> splitWs s = [s]"
    by (simp add: splitWs_def splitWsAcc_no_space)
  with assms show ?thesis by (auto simp: splitWs_def)
qed

lemma keys_disjoint: "k \<in> set NODE_KEYS \<Longrightarrow> k \<notin> set SPEC_KEYS"
  by (auto simp: NODE_KEYS_def SPEC_KEYS_def)

lemma node_key_not_bang: "k \<in> set NODE_KEYS \<Longrightarrow> k \<noteq> ''fun!'' \<and> k \<noteq> ''fun!{''"
  by (auto simp: NODE_KEYS_def)

lemma spec_key_not_bang: "k \<in> set SPEC_KEYS \<Longrightarrow> k \<noteq> ''fun!'' \<and> k \<noteq> ''fun!{''"
  by (auto simp: SPEC_KEYS_def)

lemma resolve_two_spec:
  assumes "normalizeIvxToken t0 \<in> set SPEC_KEYS" "normalizeIvxToken t1 \<in> set SPEC_KEYS"
  shows "gramSpec (gramFirst (t0 # t1 # rest)) = (t0 # t1 # rest, 2, Some (normalizeIvxToken t1), None)"
  using assms spec_key_not_bang [OF assms(1)]
  by (simp add: gramFirst_def gramSpec_def Let_def)

lemma resolve_two_node:
  assumes "normalizeIvxToken t0 \<in> set NODE_KEYS" "normalizeIvxToken t1 \<in> set NODE_KEYS"
  shows "gramNode (gramSpec (gramFirst (t0 # t1 # rest))) =
           (t0 # t1 # rest, 2, None, Some (normalizeIvxToken t1))"
  using assms node_key_not_bang [OF assms(1)] keys_disjoint [OF assms(1)] keys_disjoint [OF assms(2)]
  by (simp add: gramFirst_def gramSpec_def gramNode_def Let_def)

lemma resolve_two_spec_full:
  assumes "normalizeIvxToken t0 \<in> set SPEC_KEYS" "normalizeIvxToken t1 \<in> set SPEC_KEYS"
  shows "resolveTokens (t0 # t1 # rest) =
           (let third = (case rest of
                           [] \<Rightarrow> None
                         | t2 # r \<Rightarrow> if normalizeIvxToken t2 \<in> set NODE_KEYS
                                     then Some (normalizeIvxToken t2) else None);
                rest' = (if third = None then rest else drop 1 rest)
            in \<lparr> speckey = Some (normalizeIvxToken t1), nodekey = third,
                 linekey = filter (\<lambda>n. n \<in> set INLINE_KEYS) (map normalizeIvxToken rest'),
                 trimmedCode = trim (join '' '' (filter (\<lambda>t. normalizeIvxToken t \<notin> set INLINE_KEYS) rest')) \<rparr>)"
  using assms
  by (cases rest) (simp_all add: resolveTokens_def resolve_two_spec gramNode_def Let_def)

text \<open>
  Claim C3, as the code has it.  When the first two tokens of a segment are both spec-keys
  the second one is the resulting speckey; when both are node-keys the second one is the
  resulting nodekey.  Both tokens are consumed: the rest of the grammar is computed from
  the tokens after them (after a third token too, when two spec-keys are followed by a
  node-key).  No category is protected once filled.
\<close>

theorem SegGram_second_key_overrides:
  assumes "splitWs (trim (code seg)) = t0 # t1 # rest"
  shows "(normalizeIvxToken t0 \<in> set SPEC_KEYS \<and> normalizeIvxToken t1 \<in> set SPEC_KEYS \<longrightarrow>
            (\<exists>g. SegGram seg = Some g \<and> speckey g = Some (normalizeIvxToken t1)
                 \<and> g = (let third = (case rest of
                                        [] \<Rightarrow> None
                                      | t2 # r \<Rightarrow> if normalizeIvxToken t2 \<in> set NODE_KEYS
                                                  then Some (normalizeIvxToken t2) else None);
                             rest' = (if third = None then rest else drop 1 rest)
                         in \<lparr> speckey = Some (normalizeIvxToken t1), nodekey = third,
                              linekey = filter (\<lambda>n. n \<in> set INLINE_KEYS) (map normalizeIvxToken rest'),
                              trimmedCode = trim (join '' ''
                                (filter (\<lambda>t. normalizeIvxToken t \<notin> set INLINE_KEYS) rest')) \<rparr>)))
       \<and> (normalizeIvxToken t0 \<in> set NODE_KEYS \<and> normalizeIvxToken t1 \<in> set NODE_KEYS \<longrightarrow>
            (\<exists>g. SegGram seg = Some g \<and> nodekey g = Some (normalizeIvxToken t1) \<and> speckey g = None
                 \<and> linekey g = filter (\<lambda>n. n \<in> set INLINE_KEYS) (map normalizeIvxToken rest)
                 \<and> trimmedCode g =
                     trim (join '' '' (filter (\<lambda>t. normalizeIvxToken t \<notin> set INLINE_KEYS) rest))))"
proof -
  note nb = two_tokens_not_backslashes [OF assms]
  have sg: "SegGram seg = Some (resolveTokens (t0 # t1 # rest))"
    using nb assms by (simp add: SegGram_def Let_def)
  show ?thesis
  proof (intro conjI impI)
    assume k: "normalizeIvxToken t0 \<in> set SPEC_KEYS \<and> normalizeIvxToken t1 \<in> set SPEC_KEYS"
    from k have r: "resolveTokens (t0 # t1 # rest) = 
           (let third = (case rest of
                           [] \<Rightarrow> None
                         | t2 # r \<Rightarrow> if normalizeIvxToken t2 \<in> set NODE_KEYS
                                     then Some (normalizeIvxToken t2) else None);
                rest' = (if third = None then rest else drop 1 rest)
            in \<lparr> speckey = Some (normalizeIvxToken t1), nodekey = third,
                 linekey = filter (\<lambda>n. n \<in> set INLINE_KEYS) (map normalizeIvxToken rest'),
                 trimmedCode = trim (join '' '' (filter (\<lambda>t. normalizeIvxToken t \<notin> set INLINE_KEYS) rest')) \<rparr>)"
      by (intro resolve_two_spec_full) simp_all
    have "speckey (resolveTokens (t0 # t1 # rest)) = Some (normalizeIvxToken t1)"
      unfolding r by (simp add: Let_def)
    with sg r show "\<exists>g. SegGram seg = Some g \<and> speckey g = Some (normalizeIvxToken t1)
                 \<and> g = (let third = (case rest of
                                        [] \<Rightarrow> None
                                      | t2 # r \<Rightarrow> if normalizeIvxToken t2 \<in> set NODE_KEYS
                                                  then Some (normalizeIvxToken t2) else None);
                             rest' = (if third = None then rest else drop 1 rest)
                         in \<lparr> speckey = Some (normalizeIvxToken t1), nodekey = third,
                              linekey = filter (\<lambda>n. n \<in> set INLINE_KEYS) (map normalizeIvxToken rest'),
                              trimmedCode = trim (join '' ''
                                (filter (\<lambda>t. normalizeIvxToken t \<notin> set INLINE_KEYS) rest')) \<rparr>)"
      by simp
  next
    assume k: "normalizeIvxToken t0 \<in> set NODE_KEYS \<and> normalizeIvxToken t1 \<in> set NODE_KEYS"
    have "resolveTokens (t0 # t1 # rest) =
            \<lparr> speckey = None, nodekey = Some (normalizeIvxToken t1),
              linekey = filter (\<lambda>n. n \<in> set INLINE_KEYS) (map normalizeIvxToken rest),
              trimmedCode = trim (join '' '' (filter (\<lambda>t. normalizeIvxToken t \<notin> set INLINE_KEYS) rest)) \<rparr>"
      using k by (simp add: resolveTokens_def resolve_two_node Let_def)
    with sg show "\<exists>g. SegGram seg = Some g \<and> nodekey g = Some (normalizeIvxToken t1) \<and> speckey g = None
                 \<and> linekey g = filter (\<lambda>n. n \<in> set INLINE_KEYS) (map normalizeIvxToken rest)
                 \<and> trimmedCode g =
                     trim (join '' '' (filter (\<lambda>t. normalizeIvxToken t \<notin> set INLINE_KEYS) rest))"
      by simp
  qed
qed

theorem SegGram_second_key_overrides_witness:
  "(\<exists>g. SegGram (segOfCode ''else then x'') = Some g \<and> speckey g = Some ''then''
        \<and> g = \<lparr> speckey = Some ''then'', nodekey = None, linekey = [], trimmedCode = ''x'' \<rparr>)
   \<and> (\<exists>g. SegGram (segOfCode ''dec end y'') = Some g \<and> nodekey g = Some ''end'' \<and> speckey g = None
          \<and> linekey g = [] \<and> trimmedCode g = ''y'')"
proof -
  have a: "splitWs (trim (code (segOfCode ''else then x''))) = ''else'' # ''then'' # [''x'']"
    by code_simp
  have b: "splitWs (trim (code (segOfCode ''dec end y''))) = ''dec'' # ''end'' # [''y'']"
    by code_simp
  have c: "normalizeIvxToken ''else'' = ''else''" "normalizeIvxToken ''then'' = ''then''"
    "normalizeIvxToken ''dec'' = ''dec''" "normalizeIvxToken ''end'' = ''end''"
    "normalizeIvxToken ''y'' = ''y''" "normalizeIvxToken ''x'' = ''x''"
    "''else'' \<in> set SPEC_KEYS" "''then'' \<in> set SPEC_KEYS"
    "''dec'' \<in> set NODE_KEYS" "''end'' \<in> set NODE_KEYS" "''y'' \<notin> set INLINE_KEYS"
    "''x'' \<notin> set INLINE_KEYS" "''x'' \<notin> set NODE_KEYS"
    "trim ''y'' = ''y''" "trim ''x'' = ''x''"
    by code_simp+
  from SegGram_second_key_overrides [OF a] SegGram_second_key_overrides [OF b] c
  show ?thesis by simp
qed

text \<open>The claim as stated, that the first token of a category is the one honoured, fails
  on \<open>else then\<close> and on \<open>dec end\<close>.\<close>

theorem SegGram_first_key_counterexample:
  "map_option speckey (SegGram (segOfCode ''else then'')) = Some (Some ''then'')
   \<and> map_option speckey (SegGram (segOfCode ''else then'')) \<noteq> Some (Some ''else'')
   \<and> map_option nodekey (SegGram (segOfCode ''dec end'')) = Some (Some ''end'')
   \<and> map_option nodekey (SegGram (segOfCode ''dec end'')) \<noteq> Some (Some ''dec'')"
  by code_simp

subsection \<open>validNodeIO\<close>

lemma countDegrees_fold:
  "countOrZero (fst (fold countEdge es d)) i = countOrZero (fst d) i + inDegreeOf es i \<and>
   countOrZero (snd (fold countEdge es d)) i = countOrZero (snd d) i + outDegreeOf es i"
proof (induction es arbitrary: d)
  case Nil
  show ?case by (simp add: inDegreeOf_def outDegreeOf_def)
next
  case (Cons e es)
  have step: "countOrZero (fst (countEdge e d)) i = countOrZero (fst d) i + (if e_to e = i then 1 else 0)"
             "countOrZero (snd (countEdge e d)) i = countOrZero (snd d) i + (if e_from e = i then 1 else 0)"
    by (cases d; simp add: countEdge_def countOrZero_def)+
  show ?case
    using Cons.IH [of "countEdge e d"] step
    by (simp add: inDegreeOf_def outDegreeOf_def)
qed

lemma countDegrees_counts:
  "countDegrees es = (mi, mo) \<Longrightarrow>
     countOrZero mi i = inDegreeOf es i \<and> countOrZero mo i = outDegreeOf es i"
  using countDegrees_fold [of es "(Map.empty, Map.empty)" i]
  by (simp add: countDegrees_def countOrZero_def)

lemma validNodeIOLoop_char:
  assumes "\<And>i. countOrZero mi i = inDegreeOf es i" "\<And>i. countOrZero mo i = outDegreeOf es i"
  shows "validNodeIOLoop mi mo ns errs = errs @ concat (map (nodeViolations es) ns)"
proof (induction ns arbitrary: errs)
  case Nil
  show ?case by simp
next
  case (Cons n ns)
  show ?case
    by (cases "maxIn (NODE_ARITY_RULES (kind n))"; cases "maxOut (NODE_ARITY_RULES (kind n))")
       (simp_all add: Cons.IH assms nodeViolations_def boundViolations_def isFunBodyMember_def Let_def)
qed

lemma validNodeIO_char: "validNodeIO ns es = concat (map (nodeViolations es) ns)"
proof -
  obtain mi mo where d: "countDegrees es = (mi, mo)" by (cases "countDegrees es")
  from countDegrees_counts [OF d] have
    "\<And>i. countOrZero mi i = inDegreeOf es i" "\<And>i. countOrZero mo i = outDegreeOf es i"
    by simp_all
  from validNodeIOLoop_char [OF this] d show ?thesis by (simp add: validNodeIO_def)
qed

lemma boundViolations_in_empty:
  "boundViolations n Inputs c (minIn (NODE_ARITY_RULES k)) (maxIn (NODE_ARITY_RULES k)) = []
     \<longleftrightarrow> inputsAllowed k c"
  by (cases k) (auto simp: boundViolations_def)

lemma boundViolations_out_empty:
  "boundViolations n Outputs c (minOut (NODE_ARITY_RULES k)) (maxOut (NODE_ARITY_RULES k)) = []
     \<longleftrightarrow> outputsAllowed k c"
  by (cases k) (auto simp: boundViolations_def)

lemma nodeViolations_empty:
  "nodeViolations es n = [] \<longleftrightarrow>
     (isFunBodyMember n \<or> inputsAllowed (kind n) (inDegreeOf es (n_id n))
                          \<and> outputsAllowed (kind n) (outDegreeOf es (n_id n)))"
  by (simp add: nodeViolations_def boundViolations_in_empty boundViolations_out_empty)

text \<open>
  Claim C6.  \<open>validNodeIO\<close> is a function of the node and edge lists alone.  Its result is,
  in node order, the messages of every node not tagged as a function-body member: one
  per violated bound of the table, inputs before outputs, with the degrees counted from
  the edge list.  The result is empty exactly when every such node has the in- and
  out-degree the table allows: Start 0 in and 1 out, End 1 in and 0 out,
  Process, Input and Output 1 in and 1 out, Decision at least 1 in and at least 2 out,
  Connector at least 1 in and exactly 1 out.
\<close>

theorem validNodeIO_arity_table:
  "validNodeIO ns es = concat (map (nodeViolations es) ns)
   \<and> (validNodeIO ns es = [] \<longleftrightarrow>
        (\<forall>n \<in> set ns. \<not> isFunBodyMember n \<longrightarrow>
           inputsAllowed (kind n) (inDegreeOf es (n_id n))
           \<and> outputsAllowed (kind n) (outDegreeOf es (n_id n))))"
  by (auto simp: validNodeIO_char nodeViolations_empty)

theorem validNodeIO_arity_table_witness:
  "validNodeIO emptyDocNodes emptyDocEdges = []
   \<and> list_all (\<lambda>n. \<not> isFunBodyMember n
                  \<and> inputsAllowed (kind n) (inDegreeOf emptyDocEdges (n_id n))
                  \<and> outputsAllowed (kind n) (outDegreeOf emptyDocEdges (n_id n))) emptyDocNodes
   \<and> validNodeIO emptyDocNodes [] =
       [\<lparr> m_node = 0, m_kind = Start, m_line = 1, m_count = 0, m_direction = Outputs,
          m_expected = AtLeast 1 \<rparr>,
        \<lparr> m_node = 1, m_kind = End, m_line = 1, m_count = 0, m_direction = Inputs,
          m_expected = AtLeast 1 \<rparr>]"
proof -
  have ev: "validNodeIO emptyDocNodes emptyDocEdges = []"
    "list_all (\<lambda>n. \<not> isFunBodyMember n) emptyDocNodes"
    "concat (map (nodeViolations []) emptyDocNodes) =
       [\<lparr> m_node = 0, m_kind = Start, m_line = 1, m_count = 0, m_direction = Outputs,
          m_expected = AtLeast 1 \<rparr>,
        \<lparr> m_node = 1, m_kind = End, m_line = 1, m_count = 0, m_direction = Inputs,
          m_expected = AtLeast 1 \<rparr>]"
    by code_simp+
  from validNodeIO_arity_table [of emptyDocNodes emptyDocEdges]
       validNodeIO_arity_table [of emptyDocNodes "[]"] ev
  show ?thesis unfolding list_all_iff by auto
qed

subsection \<open>The empty document\<close>

text \<open>
  Claim C7.  The empty document is parsed to the Start node and the synthesized End node,
  with the one edge from Start to End, and the validator has no message for that graph.
\<close>

theorem empty_document:
  "parseivx [] = Inr \<lparr> g_nodes = emptyDocNodes, g_edges = emptyDocEdges,
                        startNodeId = Some 0, g_endNodeId = Some 1 \<rparr>
   \<and> validNodeIO emptyDocNodes emptyDocEdges = []"
  by code_simp

subsection \<open>Invariants of the builder and the driver\<close>

lemma hasEdge_iff_key: "hasEdge es f t l \<longleftrightarrow> (f, t, labelOrEmpty l) \<in> set (map edgeKey es)"
  by (auto simp: hasEdge_def edgeKey_def list_ex_iff)

lemma pushEdge_frame [simp]:
  "nodes (pushEdge e b) = nodes b" "nextId (pushEdge e b) = nextId b"
  "startNode (pushEdge e b) = startNode b"
  by (simp_all add: pushEdge_def)

lemma pushEdge_distinct:
  "distinct (map edgeKey (edges (pushEdge e b))) = distinct (map edgeKey (edges b))"
  by (auto simp: pushEdge_def hasEdge_iff_key edgeKey_def)

lemma gbInv_pushEdge [simp]: "gbInv (pushEdge e b) = gbInv b"
  by (simp add: gbInv_def pushEdge_distinct)

lemma map_update_same:
  assumes "f y = f (xs ! r)"
  shows "map f (xs[r := y]) = map f xs"
proof (cases "r < length xs")
  case True
  with assms show ?thesis by (simp add: map_update list_update_same_conv)
next
  case False
  then show ?thesis by (simp add: list_update_beyond)
qed

lemma appendMeta_frame [simp]:
  "map n_id (nodes (appendMeta r x b)) = map n_id (nodes b)"
  "map kind (nodes (appendMeta r x b)) = map kind (nodes b)"
  "length (nodes (appendMeta r x b)) = length (nodes b)"
  "edges (appendMeta r x b) = edges b" "nextId (appendMeta r x b) = nextId b"
  "startNode (appendMeta r x b) = startNode b"
  by (simp_all add: appendMeta_def deref_def map_update_same)

lemma gbInv_appendMeta [simp]: "gbInv (appendMeta r x b) = gbInv b"
  by (simp add: gbInv_def)

lemma gbInv_cursor [simp]:
  "gbInv (b\<lparr> lastExecutableNode := c \<rparr>) = gbInv b"
  "gbInv (b\<lparr> lastConnectorLikeNode := c \<rparr>) = gbInv b"
  "gbInv (b\<lparr> pendingNextNodes := p \<rparr>) = gbInv b"
  by (simp_all add: gbInv_def)

lemma gbInv_setMeta [simp]:
  "gbInv (b\<lparr> nodes := (nodes b)[r := (deref b r)\<lparr> meta := m \<rparr>] \<rparr>) = gbInv b"
  by (simp add: gbInv_def deref_def map_update_same)

lemma gbInv_new: "gbInv newGraphBuilder"
  by (simp add: gbInv_def newGraphBuilder_def)

lemma gbInv_makeNode:
  assumes "gbInv b" "k \<noteq> Start"
  shows "gbInv (snd (makeNode k seg t b))" "fst (makeNode k seg t b) = length (nodes b)"
  using assms by (auto simp: gbInv_def makeNode_def Let_def)

lemma gbInv_finalizeNode [simp]: "gbInv (finalizeNode r gram b) = gbInv b"
  by (simp add: finalizeNode_def Let_def split: option.splits)

lemma gbInv_wireSequential [simp]: "gbInv (wireSequential to u b) = gbInv b"
  by (simp add: wireSequential_def Let_def split: option.splits)

lemma gbInv_feedConnector [simp]: "gbInv (feedConnector fs c w b) = gbInv b"
  by (induction w arbitrary: b) simp_all

lemma gbInv_computeConnectorFanin [simp]: "gbInv (computeConnectorFanin c b) = gbInv b"
  by (simp add: computeConnectorFanin_def Let_def split: option.splits)

lemma gbInv_resolvePendingNext [simp]: "gbInv (resolvePendingNext r b) = gbInv b"
  by (simp add: resolvePendingNext_def split: option.splits)

lemma gbInv_fold_resolve [simp]: "gbInv (fold resolvePendingNext rs b) = gbInv b"
  by (induction rs arbitrary: b) simp_all


lemma funInv_simps [simp]:
  "funInv []"
  "funInv (f # fs) = ((bodyNodeIds f = [] \<or> lastBodyNodeId f \<noteq> None) \<and> funInv fs)"
  by (simp_all add: funInv_def)

lemma pInv_updates [simp]:
  "pInv (s\<lparr> gb := b \<rparr>) = (gbInv b \<and> funInv (funStack s))"
  "pInv (s\<lparr> funStack := fs \<rparr>) = (gbInv (gb s) \<and> funInv fs)"
  "pInv (s\<lparr> decisionStack := ds \<rparr>) = pInv s"
  "pInv (s\<lparr> currentBranchIndex := c \<rparr>) = pInv s"
  "pInv (s\<lparr> lastNode := l \<rparr>) = pInv s"
  by (simp_all add: pInv_def)

lemma pInvD: "pInv s \<Longrightarrow> gbInv (gb s)" "pInv s \<Longrightarrow> funInv (funStack s)"
  by (simp_all add: pInv_def)

lemma pInv_registerInFun: "pInv s \<Longrightarrow> pInv (registerInFun node s)"
  by (cases "funStack s") (simp_all add: registerInFun_def Let_def pInvD, simp add: pInv_def)

lemma pInv_createExecutableNode:
  assumes "pInv s" "k \<noteq> Start"
  shows "pInv (snd (createExecutableNode k seg t gram skip s))"
proof -
  obtain node b1 where mk: "makeNode k seg t (gb s) = (node, b1)" by (cases "makeNode k seg t (gb s)")
  from gbInv_makeNode(1) [of "gb s" k seg t] assms mk have "gbInv b1" by (simp add: pInvD)
  then have "pInv (s\<lparr> gb := finalizeNode node gram b1, lastNode := Some node \<rparr>)"
    using assms(1) by (simp add: pInvD)
  then show ?thesis
    by (simp add: createExecutableNode_def mk Let_def pInv_registerInFun)
qed

lemma pInv_createExecutableNode_pair:
  assumes "pInv s" "k \<noteq> Start" "createExecutableNode k seg t gram skip s = (node, s1)"
  shows "pInv s1"
  using pInv_createExecutableNode [OF assms(1,2), of seg t gram skip] assms(3) by simp

lemma pInv_popObsoleteLoop: "pInv s \<Longrightarrow> pInv (popObsoleteLoop seg sk ds s)"
  by (induction ds arbitrary: s) (simp_all add: pInvD)

lemma pInv_popObsoleteDecisions: "pInv s \<Longrightarrow> pInv (popObsoleteDecisions seg sk s)"
  by (simp add: popObsoleteDecisions_def pInv_popObsoleteLoop)

lemma gbInv_attachElse:
  "attachElseNodeToDecision ctx node b = (ctx', b', r) \<Longrightarrow> gbInv b' = gbInv b"
  by (auto simp: attachElseNodeToDecision_def Let_def)

lemma gbInv_attachThen:
  "attachThenNodeToDecision ctx node cbi b = (ctx', b', r) \<Longrightarrow> gbInv b' = gbInv b"
  by (auto simp: attachThenNodeToDecision_def Let_def split: option.splits)

lemma pInv_attachBySpeckey: "pInv s \<Longrightarrow> pInv (attachBySpeckey sk ctx rest node s)"
proof -
  assume a: "pInv s"
  obtain c1 b1 r1 where e: "attachElseNodeToDecision ctx node (gb s) = (c1, b1, r1)"
    by (cases "attachElseNodeToDecision ctx node (gb s)") auto
  obtain c2 b2 r2 where t: "attachThenNodeToDecision ctx node (currentBranchIndex s) (gb s) = (c2, b2, r2)"
    by (cases "attachThenNodeToDecision ctx node (currentBranchIndex s) (gb s)") auto
  from gbInv_attachElse [OF e] gbInv_attachThen [OF t] a show ?thesis
    by (cases r1; cases r2) (simp add: attachBySpeckey_def e t pInvD)
qed

lemma pInv_wireIntoDecisionIfAny: "pInv s \<Longrightarrow> pInv (snd (wireIntoDecisionIfAny node seg sk s))"
  by (cases "decisionStack s") (simp_all add: wireIntoDecisionIfAny_def pInv_attachBySpeckey)

lemma pInv_wireIfNotInFun: "pInv s \<Longrightarrow> pInv (wireIfNotInFun node s)"
  by (simp add: wireIfNotInFun_def pInvD)

lemma pInv_createAndWire:
  assumes f: "\<And>x. pInv x \<Longrightarrow> pInv (f x)" and "pInv s" "k \<noteq> Start"
  shows "pInv (case createExecutableNode k seg t gram False s of
                 (node, s3) \<Rightarrow>
                   if fst (wireIntoDecisionIfAny node seg sk s3)
                   then snd (wireIntoDecisionIfAny node seg sk' s3)
                   else wireIfNotInFun node (f (snd (wireIntoDecisionIfAny node seg sk' s3))))"
proof -
  obtain node s3 where c: "createExecutableNode k seg t gram False s = (node, s3)"
    by (cases "createExecutableNode k seg t gram False s")
  from pInv_createExecutableNode_pair [OF assms(2,3) c] have "pInv s3" .
  then show ?thesis
    by (simp add: c pInv_wireIntoDecisionIfAny pInv_wireIfNotInFun f)
qed

lemma pInv_handleExecutableNode:
  assumes "pInv s" "k \<noteq> Start"
  shows "pInv (handleExecutableNode k seg gram t sk s)"
  using pInv_createAndWire [where f = "popObsoleteDecisions seg sk" and s = s and k = k
          and seg = seg and t = t and gram = gram and sk = sk and sk' = sk] assms
  by (simp add: handleExecutableNode_def Let_def pInv_popObsoleteDecisions)

lemma pInv_handleBareElseThen:
  assumes "pInv s"
  shows "pInv (handleBareElseThen seg gram s)"
proof -
  have p: "\<And>sk. pInv (popObsoleteDecisions seg sk s)"
    using assms by (rule pInv_popObsoleteDecisions)
  have a: "\<And>s2 sk. pInv s2 \<Longrightarrow> pInv (handleExecutableNode Process seg gram (trimmedCode gram) sk s2)"
    by (simp add: pInv_handleExecutableNode)
  have b: "\<And>s2 sk sk'. pInv s2 \<Longrightarrow>
               pInv (case createExecutableNode Process seg (trimmedCode gram) gram False s2 of
                       (node, s3) \<Rightarrow>
                         if fst (wireIntoDecisionIfAny node seg sk s3)
                         then snd (wireIntoDecisionIfAny node seg sk' s3)
                         else wireIfNotInFun node (snd (wireIntoDecisionIfAny node seg sk' s3)))"
    using pInv_createAndWire [where f = "\<lambda>x. x" and k = Process] by simp
  show ?thesis
    by (cases "decisionStack (popObsoleteDecisions seg (speckey gram) s)")
       (simp_all add: handleBareElseThen_def Let_def a b p)
qed

lemma closeFun_ok:
  assumes "pInv s"
  shows "\<exists>r. closeFun seg s = Inr r \<and> pInv (snd r)"
proof (cases "funStack s")
  case Nil
  with assms show ?thesis by (simp add: closeFun_def)
next
  case (Cons funCtx rest)
  from assms Cons have fi: "bodyNodeIds funCtx = [] \<or> lastBodyNodeId funCtx \<noteq> None" "funInv rest"
    using pInvD(2) [OF assms] by simp_all
  have g: "gbInv (gb s)" using assms by (rule pInvD)
  show ?thesis
  proof (cases "endsWithBrace (trimEnd (code seg))")
    case False
    with Cons assms show ?thesis by (simp add: closeFun_def Let_def)
  next
    case True
    show ?thesis
    proof (cases "bodyNodeIds funCtx = []")
      case True
      with \<open>endsWithBrace (trimEnd (code seg))\<close> Cons g fi show ?thesis
        by (simp add: closeFun_def Let_def)
    next
      case False
      with fi obtain lb where lb: "lastBodyNodeId funCtx = Some lb" by auto
      let ?s2 = "s\<lparr> funStack := rest, gb := appendMeta (f_header funCtx)
                               (''fun-body=['' @ join '','' (map showNat (bodyNodeIds funCtx)) @ '']'')
                               (gb s) \<rparr>"
      let ?ft = "trim (trimEnd (code seg))"
      have s2: "pInv ?s2" using g fi by simp
      obtain fn s3 where c: "createExecutableNode Process seg ?ft
             \<lparr> speckey = None, nodekey = None, linekey = [], trimmedCode = ?ft \<rparr> True ?s2 = (fn, s3)"
        by (cases "createExecutableNode Process seg ?ft
             \<lparr> speckey = None, nodekey = None, linekey = [], trimmedCode = ?ft \<rparr> True ?s2")
      from pInv_createExecutableNode_pair [OF s2 _ c] have s3: "pInv s3" by simp
      show ?thesis
        using False \<open>endsWithBrace (trimEnd (code seg))\<close> Cons lb s3 c
        by (simp add: closeFun_def Let_def pInvD)
    qed
  qed
qed

lemma pInv_handleFun: "pInv s \<Longrightarrow> pInv (handleFun seg gram s)"
proof -
  assume a: "pInv s"
  have "\<And>t g fn s1. createExecutableNode Process seg t g True s = (fn, s1) \<Longrightarrow> pInv s1"
    using pInv_createExecutableNode_pair [OF a, where k = Process] by blast
  then show ?thesis
    by (simp add: handleFun_def Let_def pInvD split: prod.splits)
qed

lemma pInv_handleEnd: "pInv s \<Longrightarrow> pInv (handleEnd seg gram s)"
proof -
  assume a: "pInv s"
  obtain endNode s1 where c: "createExecutableNode End seg (trimmedCode gram) gram False s = (endNode, s1)"
    by (cases "createExecutableNode End seg (trimmedCode gram) gram False s")
  from pInv_createExecutableNode_pair [OF a _ c] have s1: "pInv s1" by simp
  let ?s2 = "s1\<lparr> gb := appendMeta endNode ''explicit end'' (gb s1) \<rparr>"
  have s2: "pInv ?s2" using s1 by (simp add: pInvD)
  have w: "\<And>sk. pInv (snd (wireIntoDecisionIfAny endNode seg sk ?s2))"
    using s2 by (rule pInv_wireIntoDecisionIfAny)
  show ?thesis
    using s2 w [THEN pInvD(1)] w [THEN pInvD(2)] pInvD [OF s2]
    by (simp add: handleEnd_def c Let_def)
qed

lemma pInv_handleDecision: "pInv s \<Longrightarrow> pInv (handleDecision seg gram s)"
proof -
  assume a: "pInv s"
  let ?s1 = "(popObsoleteDecisions seg (speckey gram) s)\<lparr> currentBranchIndex := None \<rparr>"
  have s1: "pInv ?s1" using a by (simp add: pInv_popObsoleteDecisions)
  obtain d s2 where c: "createExecutableNode Decision seg (trimmedCode gram) gram False ?s1 = (d, s2)"
    by (cases "createExecutableNode Decision seg (trimmedCode gram) gram False ?s1")
  from pInv_createExecutableNode_pair [OF s1 _ c] have s2: "pInv s2" by simp
  let ?s3a = "case decisionStack s2 of [] \<Rightarrow> s2
              | outerCtx # rest \<Rightarrow> attachBySpeckey (speckey gram) outerCtx rest d s2"
  have s3: "pInv ?s3a"
    using s2 by (simp add: pInv_attachBySpeckey split: list.splits)
  have s3': "pInv (wireIfNotInFun d s2)" using s2 by (rule pInv_wireIfNotInFun)
  show ?thesis
    using pInvD [OF s3] pInvD [OF s3']
    by (simp add: handleDecision_def c Let_def)
qed

lemma pInv_handleConnector: "pInv s \<Longrightarrow> pInv (handleConnector seg gram s)"
proof -
  assume a: "pInv s"
  let ?t = "if trimmedCode gram = [] then ''ii'' else trimmedCode gram"
  obtain c s1 where cr: "createExecutableNode Connector seg ?t gram False s = (c, s1)"
    by (cases "createExecutableNode Connector seg ?t gram False s")
  from pInv_createExecutableNode_pair [OF a _ cr] have s1: "pInv s1" by simp
  let ?s2 = "s1\<lparr> gb := (gb s1)\<lparr> lastConnectorLikeNode := Some c, lastExecutableNode := Some c \<rparr> \<rparr>"
  have "pInv ?s2" using s1 by (simp add: pInvD)
  then have s3: "pInv (popObsoleteDecisions seg (speckey gram) ?s2)"
    by (rule pInv_popObsoleteDecisions)
  show ?thesis
    using pInvD [OF s3] cr
    by (simp add: handleConnector_def Let_def)
qed

lemma pInv_dispatchSegment: "pInv s \<Longrightarrow> pInv (dispatchSegment seg gram s)"
  by (simp add: dispatchSegment_def pInv_handleFun pInv_handleBareElseThen pInv_handleEnd
        pInv_handleExecutableNode pInv_handleDecision pInv_handleConnector)

lemma processSegment_ok:
  assumes "pInv s"
  shows "\<exists>s'. processSegment seg s = Inr s' \<and> pInv s'"
proof -
  from closeFun_ok [OF assms, of seg] obtain r where r: "closeFun seg s = Inr r" "pInv (snd r)"
    by blast
  show ?thesis
  proof (cases "trim (code seg) = [] \<and> trim (comment seg) \<noteq> []")
    case True
    with assms show ?thesis
      by (cases "lastNode s") (simp_all add: processSegment_def pInvD)
  next
    case False
    with r show ?thesis
      by (cases "SegGram seg") (auto simp: processSegment_def pInv_dispatchSegment)
  qed
qed

lemma parseLoop_ok: "pInv s \<Longrightarrow> \<exists>s'. parseLoop segs s = Inr s' \<and> pInv s'"
proof (induction segs arbitrary: s)
  case Nil
  then show ?case by simp
next
  case (Cons seg segs)
  from processSegment_ok [OF Cons.prems, of seg] obtain s1 where
    "processSegment seg s = Inr s1" "pInv s1" by blast
  with Cons.IH [of s1] show ?case by simp
qed

lemma pInv_initial: "pInv initialState"
  by (simp add: pInv_def initialState_def gbInv_new)


lemma resolvePendingNext_frame [simp]:
  "nodes (resolvePendingNext r b) = nodes b" "nextId (resolvePendingNext r b) = nextId b"
  "startNode (resolvePendingNext r b) = startNode b"
  by (simp_all add: resolvePendingNext_def split: option.splits)

lemma fold_resolve_frame [simp]:
  "nodes (fold resolvePendingNext rs b) = nodes b"
  "nextId (fold resolvePendingNext rs b) = nextId b"
  "startNode (fold resolvePendingNext rs b) = startNode b"
  by (induction rs arbitrary: b) simp_all

lemma appendEnd_props:
  assumes "gbInv b3"
  shows "graphInv (case createImplicitEnd ln si m b3 of
           (implicitEnd, b4) \<Rightarrow>
             let b5 = pushEdge \<lparr> e_from = f, e_to = n_id (deref b4 implicitEnd), label = None \<rparr> b4
             in \<lparr> g_nodes = nodes b5, g_edges = edges b5,
                  startNodeId = Some (n_id (deref b5 (startNode b5))),
                  g_endNodeId = Some (n_id (deref b5 implicitEnd)) \<rparr>)
         \<longleftrightarrow> (m = ''implicit end'' \<or> m = ''implicit end (empty doc)'')"
proof -
  from assms obtain ks where ks: "map kind (nodes b3) = Start # ks" "Start \<notin> set ks"
    and ids: "map n_id (nodes b3) = [0..<length (nodes b3)]" and nx: "nextId b3 = length (nodes b3)"
    and ds: "distinct (map edgeKey (edges b3))" and st: "startNode b3 = 0"
    by (auto simp: gbInv_def)
  from ks have ne: "nodes b3 \<noteq> []" by auto
  then have hd0: "n_id (nodes b3 ! 0) = 0"
    using ids by (metis length_greater_0_conv nth_map nth_upt add.left_neutral)
  let ?b4 = "b3\<lparr> nextId := nextId b3 + 1,
                 nodes := nodes b3 @ [\<lparr> n_id = nextId b3, kind = End, line = ln, n_segmentIndex = si,
                          n_indent = 0, n_text = [], meta = Some m \<rparr>],
                 endNodeId := Some (nextId b3) \<rparr>"
  have d5: "distinct (map edgeKey (edges (pushEdge e ?b4)))" for e
    using ds by (simp add: pushEdge_distinct)
  have e5: "map kind (nodes b3) @ [End] = Start # ks @ [End]" using ks by simp
  show ?thesis
    using ids nx st ne hd0 d5 e5 ks
    by (simp add: graphInv_def createImplicitEnd_def Let_def deref_def nth_append)
qed

lemma finalizeGraph_inv:
  assumes "gbInv b0"
  shows "graphInv (finalizeGraph b0)"
proof -
  define b1 where "b1 = fold resolvePendingNext (pendingNextNodes b0) b0"
  have g1: "gbInv b1" using assms by (simp add: b1_def)
  define b2 where "b2 = (case filter isNonSentinel (nodes b1) of
                  [] \<Rightarrow> b1
                | first # _ \<Rightarrow>
                    if \<not> list_ex (\<lambda>e. e_from e = n_id (deref b1 (startNode b1))) (edges b1)
                    then pushEdge \<lparr> e_from = n_id (deref b1 (startNode b1)), e_to = n_id first, label = None \<rparr> b1
                    else b1)"
  have g2: "gbInv b2" using g1 by (simp add: b2_def split: list.splits)
  define b3 where "b3 = (case filter isNonSentinel (nodes b1) of
                  first # second # _ \<Rightarrow>
                    if kind second = Connector \<and>
                       \<not> list_ex (\<lambda>e. e_from e = n_id first \<and> e_to e = n_id second) (edges b2)
                    then pushEdge \<lparr> e_from = n_id first, e_to = n_id second, label = None \<rparr> b2
                    else b2
                | _ \<Rightarrow> b2)"
  have g3: "gbInv b3" using g2 by (simp add: b3_def split: list.splits)
  have "finalizeGraph b0 =
          (let startN = deref b1 (startNode b1);
               executableNodes = filter (\<lambda>n. kind n \<noteq> End) (nodes b3);
               fallthroughNode = (if length executableNodes > 0 then last executableNodes else startN);
               endLabel = (if length executableNodes > 0 then ''implicit end''
                           else ''implicit end (empty doc)'')
           in case createImplicitEnd (line fallthroughNode) (n_segmentIndex fallthroughNode) endLabel b3 of
           (implicitEnd, b4) \<Rightarrow>
             let b5 = pushEdge \<lparr> e_from = n_id fallthroughNode, e_to = n_id (deref b4 implicitEnd),
                                 label = None \<rparr> b4
             in \<lparr> g_nodes = nodes b5, g_edges = edges b5,
                  startNodeId = Some (n_id (deref b5 (startNode b5))),
                  g_endNodeId = Some (n_id (deref b5 implicitEnd)) \<rparr>)"
    unfolding finalizeGraph_def b1_def b2_def b3_def Let_def by (rule refl)
  then show ?thesis
    using appendEnd_props [OF g3] unfolding Let_def by (simp split: if_splits)
qed

lemma finalizeGraph_nodes:
  assumes "gbInv b0"
  shows "g_nodes (finalizeGraph b0) = nodes b0 @ [synthesizedEnd (nodes b0)]"
proof -
  define b1 where "b1 = fold resolvePendingNext (pendingNextNodes b0) b0"
  define b2 where "b2 = (case filter isNonSentinel (nodes b1) of
                  [] \<Rightarrow> b1
                | first # _ \<Rightarrow>
                    if \<not> list_ex (\<lambda>e. e_from e = n_id (deref b1 (startNode b1))) (edges b1)
                    then pushEdge \<lparr> e_from = n_id (deref b1 (startNode b1)), e_to = n_id first, label = None \<rparr> b1
                    else b1)"
  define b3 where "b3 = (case filter isNonSentinel (nodes b1) of
                  first # second # _ \<Rightarrow>
                    if kind second = Connector \<and>
                       \<not> list_ex (\<lambda>e. e_from e = n_id first \<and> e_to e = n_id second) (edges b2)
                    then pushEdge \<lparr> e_from = n_id first, e_to = n_id second, label = None \<rparr> b2
                    else b2
                | _ \<Rightarrow> b2)"
  have n1: "nodes b1 = nodes b0" "nextId b1 = nextId b0" by (simp_all add: b1_def)
  have n2: "nodes b2 = nodes b0" "nextId b2 = nextId b0"
    using n1 by (simp_all add: b2_def split: list.splits)
  have n3: "nodes b3 = nodes b0" "nextId b3 = nextId b0"
    using n2 by (simp_all add: b3_def split: list.splits)
  from assms obtain ks where ks: "map kind (nodes b0) = Start # ks" and nx: "nextId b0 = length (nodes b0)"
    by (auto simp: gbInv_def)
  from ks obtain st rest where sr: "nodes b0 = st # rest" "kind st = Start" by (cases "nodes b0") auto
  then have ne: "filter (\<lambda>n. kind n \<noteq> End) (nodes b0) \<noteq> []" by simp
  have "finalizeGraph b0 =
          (let startN = deref b1 (startNode b1);
               executableNodes = filter (\<lambda>n. kind n \<noteq> End) (nodes b3);
               fallthroughNode = (if length executableNodes > 0 then last executableNodes else startN);
               endLabel = (if length executableNodes > 0 then ''implicit end''
                           else ''implicit end (empty doc)'')
           in case createImplicitEnd (line fallthroughNode) (n_segmentIndex fallthroughNode) endLabel b3 of
           (implicitEnd, b4) \<Rightarrow>
             let b5 = pushEdge \<lparr> e_from = n_id fallthroughNode, e_to = n_id (deref b4 implicitEnd),
                                 label = None \<rparr> b4
             in \<lparr> g_nodes = nodes b5, g_edges = edges b5,
                  startNodeId = Some (n_id (deref b5 (startNode b5))),
                  g_endNodeId = Some (n_id (deref b5 implicitEnd)) \<rparr>)"
    unfolding finalizeGraph_def b1_def b2_def b3_def Let_def by (rule refl)
  then show ?thesis
    using ne n3 nx
    by (simp add: Let_def createImplicitEnd_def synthesizedEnd_def)
qed

theorem parseivx_ok: "\<exists>g. parseivx t = Inr g \<and> graphInv g"
proof -
  from parseLoop_ok [OF pInv_initial, of "collectSegments t"] obtain s where
    s: "parseLoop (collectSegments t) initialState = Inr s" "pInv s" by blast
  from finalizeGraph_inv [OF pInvD(1) [OF s(2)]] s(1) show ?thesis
    by (simp add: parseivx_def)
qed

subsection \<open>The returned graph\<close>

text \<open>
  Claim C4.  For every text \<open>parseivx\<close> returns a graph whose first node is the only node of
  kind Start and has id 0; the ids are 0, 1, 2, ... in creation order, hence unique and
  strictly increasing.  The nodes of the graph are the nodes the segment loop has built
  followed by one more node, the End node that finalization synthesizes: its id is the
  next id, its text is empty, its meta is \<open>implicit end\<close>, its line and segment index are
  those of the last node built that is not an End node; and its id is the graph's
  end-node id.
\<close>

theorem parseivx_start_end_ids:
  "\<exists>g s firstN mid lastN. parseivx t = Inr g
     \<and> g_nodes g = firstN # mid @ [lastN]
     \<and> kind firstN = Start \<and> n_id firstN = 0 \<and> startNodeId g = Some 0
     \<and> list_all (\<lambda>n. kind n \<noteq> Start) (mid @ [lastN])
     \<and> map n_id (g_nodes g) = [0..<length (g_nodes g)]
     \<and> distinct (map n_id (g_nodes g)) \<and> sorted_wrt (<) (map n_id (g_nodes g))
     \<and> kind lastN = End \<and> g_endNodeId g = Some (n_id lastN)
     \<and> parseLoop (collectSegments t) initialState = Inr s
     \<and> g_nodes g = nodes (gb s) @ [lastN]
     \<and> lastN = synthesizedEnd (nodes (gb s))
     \<and> n_text lastN = [] \<and> meta lastN = Some ''implicit end''"
proof -
  from parseLoop_ok [OF pInv_initial, of "collectSegments t"] obtain s where
    s: "parseLoop (collectSegments t) initialState = Inr s" "pInv s" by blast
  let ?g = "finalizeGraph (gb s)"
  have g: "parseivx t = Inr ?g" using s(1) by (simp add: parseivx_def)
  have gi: "graphInv ?g" using finalizeGraph_inv [OF pInvD(1) [OF s(2)]] .
  have gn: "g_nodes ?g = nodes (gb s) @ [synthesizedEnd (nodes (gb s))]"
    using finalizeGraph_nodes [OF pInvD(1) [OF s(2)]] .
  from pInvD(1) [OF s(2)] obtain ks where ks: "map kind (nodes (gb s)) = Start # ks" "Start \<notin> set ks"
    and ids0: "map n_id (nodes (gb s)) = [0..<length (nodes (gb s))]"
    by (auto simp: gbInv_def)
  from ks(1) obtain firstN mid where fm: "nodes (gb s) = firstN # mid" "kind firstN = Start"
    "map kind mid = ks" by (cases "nodes (gb s)") auto
  let ?l = "synthesizedEnd (nodes (gb s))"
  have lk: "kind ?l = End" "n_text ?l = []" "meta ?l = Some ''implicit end''"
    "n_id ?l = length (nodes (gb s))"
    by (simp_all add: synthesizedEnd_def Let_def)
  from gi have ids: "map n_id (g_nodes ?g) = [0..<length (g_nodes ?g)]"
    and st: "startNodeId ?g = Some 0" and en: "g_endNodeId ?g = Some (n_id (last (g_nodes ?g)))"
    by (auto simp: graphInv_def)
  have nostart: "list_all (\<lambda>n. kind n \<noteq> Start) (mid @ [?l])"
    using fm(3) ks(2) lk(1) by (force simp: list_all_iff)
  have "map n_id (nodes (gb s)) ! 0 = [0..<length (nodes (gb s))] ! 0" by (simp only: ids0)
  then have id0: "n_id firstN = 0" using fm(1) by (simp del: upt_Suc)
  have dist: "distinct (map n_id (g_nodes ?g))" "sorted_wrt (<) (map n_id (g_nodes ?g))"
    by (simp_all add: ids)
  have shape: "g_nodes ?g = firstN # mid @ [?l]" using gn fm(1) by simp
  have en': "g_endNodeId ?g = Some (n_id ?l)" using en gn by simp
  show ?thesis
    using g shape fm(2) id0 st nostart ids dist lk(1) en' s(1) gn lk(2,3)
    by blast
qed

text \<open>
  Claim C5.  For every text, no two edges of the graph returned by \<open>parseivx\<close> have the same
  (from, to, label) with an absent label read as the empty string.  \<open>hasEdge\<close> tests exactly
  that identity, \<open>pushEdge\<close> of an edge already present returns the builder unchanged, and
  \<open>pushEdge\<close> keeps the edge list free of duplicates.
\<close>

theorem parseivx_edges_distinct:
  "(\<exists>g. parseivx t = Inr g \<and> distinct (map edgeKey (g_edges g)))
   \<and> (hasEdge (edges b) (e_from e) (e_to e) (label e) \<longrightarrow> pushEdge e b = b)
   \<and> (hasEdge (edges b) (e_from e) (e_to e) (label e) \<longleftrightarrow> edgeKey e \<in> set (map edgeKey (edges b)))
   \<and> distinct (map edgeKey (edges (pushEdge e b))) = distinct (map edgeKey (edges b))"
proof -
  from parseivx_ok [of t] have "\<exists>g. parseivx t = Inr g \<and> distinct (map edgeKey (g_edges g))"
    by (auto simp: graphInv_def)
  moreover have "hasEdge (edges b) (e_from e) (e_to e) (label e) \<longrightarrow> pushEdge e b = b"
    by (simp add: pushEdge_def)
  moreover have "hasEdge (edges b) (e_from e) (e_to e) (label e) \<longleftrightarrow> edgeKey e \<in> set (map edgeKey (edges b))"
    by (simp add: hasEdge_iff_key edgeKey_def)
  ultimately show ?thesis by (simp add: pushEdge_distinct)
qed

theorem parseivx_edges_distinct_witness:
  "hasEdge (edges (pushEdge sampleEdge newGraphBuilder)) 0 1 (Some [])
   \<and> pushEdge sampleEdgeEmptyLabel (pushEdge sampleEdge newGraphBuilder) = pushEdge sampleEdge newGraphBuilder
   \<and> edges (pushEdge sampleEdge newGraphBuilder) = [sampleEdge]"
proof -
  have ev: "hasEdge (edges (pushEdge sampleEdge newGraphBuilder)) (e_from sampleEdgeEmptyLabel)
              (e_to sampleEdgeEmptyLabel) (label sampleEdgeEmptyLabel)"
    "hasEdge (edges (pushEdge sampleEdge newGraphBuilder)) 0 1 (Some [])"
    "edges (pushEdge sampleEdge newGraphBuilder) = [sampleEdge]"
    by code_simp+
  from parseivx_edges_distinct [of "[]" "pushEdge sampleEdge newGraphBuilder" sampleEdgeEmptyLabel] ev
  show ?thesis by blast
qed

lemma trim_empty_all_space:
  assumes "trim c = []"
  shows "\<forall>x \<in> set c. isSpace x"
proof -
  let ?d = "dropWhile isSpace c"
  from assms have "dropWhile isSpace (rev ?d) = []"
    by (simp add: trim_def trimEnd_def trimStart_def)
  then have all: "\<forall>x \<in> set ?d. isSpace x" by (simp add: dropWhile_eq_Nil_conv)
  have "?d = []"
  proof (rule ccontr)
    assume ne: "?d \<noteq> []"
    then have "\<not> isSpace (hd ?d)" by (rule hd_dropWhile)
    moreover have "hd ?d \<in> set ?d" using ne by simp
    ultimately show False using all by blast
  qed
  then show ?thesis by (simp add: dropWhile_eq_Nil_conv)
qed

lemma trim_last:
  assumes "trim c \<noteq> []"
  shows "dropWhile isSpace (rev (trimEnd c)) = rev (trim c) @ rev (takeWhile isSpace c)"
proof -
  let ?d = "dropWhile isSpace c"
  have ne: "?d \<noteq> []" using assms by (auto simp: trim_def trimEnd_def trimStart_def dest: set_dropWhileD)
  then have ns: "\<not> isSpace (hd ?d)" by (rule hd_dropWhile)
  have mem: "hd ?d \<in> set (rev ?d)" using ne by simp
  have "rev c = rev ?d @ rev (takeWhile isSpace c)"
    by (metis rev_append takeWhile_dropWhile_id)
  then have "dropWhile isSpace (rev c) = dropWhile isSpace (rev ?d) @ rev (takeWhile isSpace c)"
    using dropWhile_append1 [of "hd ?d" "rev ?d" isSpace "rev (takeWhile isSpace c)"] mem ns by simp
  moreover have "dropWhile isSpace (rev (trimEnd c)) = dropWhile isSpace (rev c)"
    by (simp add: trimEnd_def dropWhile_idem)
  ultimately show ?thesis by (simp add: trim_def trimEnd_def trimStart_def)
qed

lemma no_grammar_no_brace:
  assumes "SegGram seg = None"
  shows "\<not> endsWithBrace (trimEnd (code seg))"
proof (cases "trim (code seg) = []")
  case True
  from trim_empty_all_space [OF True] have dw: "dropWhile isSpace (rev (code seg)) = []"
    by (simp add: dropWhile_eq_Nil_conv)
  show ?thesis
    unfolding endsWithBrace_def trimEnd_def rev_rev_ident dropWhile_idem dw by simp
next
  case False
  with assms have bs: "list_all (\<lambda>c. c = CHR 0x5C) (trim (code seg))"
    by (simp add: SegGram_def Let_def split: if_splits)
  from False obtain x xs where r: "rev (trim (code seg)) = x # xs" by (cases "rev (trim (code seg))") auto
  then have "x \<in> set (trim (code seg))" by (metis list.set_intros(1) set_rev)
  with bs have "x = CHR 0x5C" by (simp add: list_all_iff)
  with trim_last [OF False] r show ?thesis by (simp add: endsWithBrace_def)
qed

text \<open>
  Claim C8.  For every text \<open>parseivx\<close> returns a graph, never a fault; \<open>validNodeIO\<close> is a
  total function of that graph.  A segment that resolves to no grammar leaves the ids,
  the kinds and the edges as they were, so it produces no node.  In every state the
  driver loop reaches, \<open>closeFun\<close> returns without meeting its non-null assertion, and the
  loop itself returns a state for every list of segments.
\<close>

theorem parseivx_never_faults:
  "(\<exists>g. parseivx t = Inr g)
   \<and> (SegGram seg = None \<longrightarrow>
        (\<exists>s'. processSegment seg s = Inr s' \<and> map n_id (nodes (gb s')) = map n_id (nodes (gb s))
              \<and> map kind (nodes (gb s')) = map kind (nodes (gb s)) \<and> edges (gb s') = edges (gb s)))
   \<and> (parseLoop segs initialState = Inr s1 \<longrightarrow> (\<exists>r. closeFun seg s1 = Inr r))
   \<and> (\<exists>s2. parseLoop segs initialState = Inr s2)"
proof (intro conjI impI)
  show "\<exists>g. parseivx t = Inr g" using parseivx_ok [of t] by blast
next
  assume n: "SegGram seg = None"
  have cf: "closeFun seg s = Inr (False, s)"
    using no_grammar_no_brace [OF n] by (simp add: closeFun_def Let_def split: list.splits)
  show "\<exists>s'. processSegment seg s = Inr s' \<and> map n_id (nodes (gb s')) = map n_id (nodes (gb s))
              \<and> map kind (nodes (gb s')) = map kind (nodes (gb s)) \<and> edges (gb s') = edges (gb s)"
    using n cf by (cases "lastNode s") (simp_all add: processSegment_def)
next
  assume "parseLoop segs initialState = Inr s1"
  with parseLoop_ok [OF pInv_initial, of segs] have "pInv s1" by auto
  from closeFun_ok [OF this, of seg] show "\<exists>r. closeFun seg s1 = Inr r" by blast
next
  from parseLoop_ok [OF pInv_initial, of segs] show "\<exists>s2. parseLoop segs initialState = Inr s2"
    by blast
qed

theorem parseivx_never_faults_witness:
  "SegGram backslashSegment = None
   \<and> processSegment backslashSegment initialState = Inr initialState
   \<and> parseLoop [] initialState = Inr initialState
   \<and> closeFun backslashSegment initialState = Inr (False, initialState)"
proof -
  have ev: "SegGram backslashSegment = None"
    "processSegment backslashSegment initialState = Inr initialState"
    "parseLoop [] initialState = Inr initialState"
    "closeFun backslashSegment initialState = Inr (False, initialState)"
    by code_simp+
  from parseivx_never_faults [of "[]" backslashSegment initialState "[]" initialState] ev
  show ?thesis by blast
qed

subsection \<open>Connector fan-in\<close>

lemma succs_set: "set (succsInWindow es ids i) = {w. (i, w) \<in> set (inducedEdges es ids)}"
  by (auto simp: succsInWindow_def inducedEdges_def)

lemma leave_visited:
  assumes "(v, m) \<in> R\<^sup>*" "v \<in> V" "m \<notin> V"
  shows "\<exists>u \<in> V. \<exists>w. w \<notin> V \<and> (u, w) \<in> R \<and> (w, m) \<in> R\<^sup>*"
  using assms
proof (induction rule: converse_rtrancl_induct)
  case base
  then show ?case by simp
next
  case (step y z)
  show ?case
  proof (cases "z \<in> V")
    case True
    with step show ?thesis by blast
  next
    case False
    with step show ?thesis by blast
  qed
qed

lemma canReachFeederLoop_correct:
  assumes "\<forall>v \<in> set visited. \<not> (v \<noteq> startId \<and> v \<in> set feederIds)"
    and "\<forall>v \<in> set visited. \<forall>w. (v, w) \<in> set (inducedEdges es ids) \<longrightarrow> w \<in> set visited \<union> set stack"
  shows "canReachFeederLoop es ids startId feederIds visited stack \<longleftrightarrow>
           (\<exists>s \<in> set stack. \<exists>m \<in> set feederIds. m \<noteq> startId \<and> (s, m) \<in> walks es ids)"
  using assms
proof (induction es ids startId feederIds visited stack rule: canReachFeederLoop.induct)
  case (1 es ids startId feederIds visited)
  show ?case by simp
next
  case (2 es ids startId feederIds visited i stack)
  let ?R = "set (inducedEdges es ids)"
  let ?T = "\<lambda>m. m \<in> set feederIds \<and> m \<noteq> startId"
  show ?case
  proof (cases "i \<in> set visited")
    case True
    have inv2: "\<forall>v \<in> set visited. \<forall>w. (v, w) \<in> ?R \<longrightarrow> w \<in> set visited \<union> set stack"
      using "2.prems"(2) True by auto
    have ih: "canReachFeederLoop es ids startId feederIds visited stack \<longleftrightarrow>
              (\<exists>s \<in> set stack. \<exists>m \<in> set feederIds. m \<noteq> startId \<and> (s, m) \<in> walks es ids)"
      using "2.IH"(1) [OF True "2.prems"(1) inv2] .
    have "(\<exists>m \<in> set feederIds. m \<noteq> startId \<and> (i, m) \<in> walks es ids) \<Longrightarrow>
          (\<exists>s \<in> set stack. \<exists>m \<in> set feederIds. m \<noteq> startId \<and> (s, m) \<in> walks es ids)"
    proof -
      assume "\<exists>m \<in> set feederIds. m \<noteq> startId \<and> (i, m) \<in> walks es ids"
      then obtain m where m: "m \<in> set feederIds" "m \<noteq> startId" "(i, m) \<in> ?R\<^sup>*"
        by (auto simp: walks_def)
      have "m \<notin> set visited" using "2.prems"(1) m by blast
      from leave_visited [OF m(3) True this] obtain u w where
        "u \<in> set visited" "w \<notin> set visited" "(u, w) \<in> ?R" "(w, m) \<in> ?R\<^sup>*" by blast
      with inv2 have "w \<in> set stack" by blast
      with m \<open>(w, m) \<in> ?R\<^sup>*\<close> show ?thesis by (auto simp: walks_def)
    qed
    with ih True show ?thesis by auto
  next
    case False
    show ?thesis
    proof (cases "i \<noteq> startId \<and> i \<in> set feederIds")
      case True
      with False show ?thesis by (auto simp: walks_def)
    next
      case nt: False
      let ?new = "rev (filter (\<lambda>nxt. nxt \<notin> set (i # visited)) (succsInWindow es ids i)) @ stack"
      have inv1: "\<forall>v \<in> set (i # visited). \<not> (v \<noteq> startId \<and> v \<in> set feederIds)"
        using "2.prems"(1) nt by auto
      have inv2: "\<forall>v \<in> set (i # visited). \<forall>w. (v, w) \<in> ?R \<longrightarrow> w \<in> set (i # visited) \<union> set ?new"
        using "2.prems"(2) by (auto simp: succs_set)
      have ih: "canReachFeederLoop es ids startId feederIds (i # visited) ?new \<longleftrightarrow>
              (\<exists>s \<in> set ?new. \<exists>m \<in> set feederIds. m \<noteq> startId \<and> (s, m) \<in> walks es ids)"
        using "2.IH"(2) [OF False nt inv1 inv2] .
      have fwd: "(\<exists>s \<in> set (i # stack). \<exists>m \<in> set feederIds. m \<noteq> startId \<and> (s, m) \<in> walks es ids) \<Longrightarrow>
            (\<exists>s \<in> set ?new. \<exists>m \<in> set feederIds. m \<noteq> startId \<and> (s, m) \<in> walks es ids)"
      proof -
        assume "\<exists>s \<in> set (i # stack). \<exists>m \<in> set feederIds. m \<noteq> startId \<and> (s, m) \<in> walks es ids"
        then obtain s m where sm: "s \<in> set (i # stack)" "m \<in> set feederIds" "m \<noteq> startId"
          "(s, m) \<in> ?R\<^sup>*" by (auto simp: walks_def)
        show ?thesis
        proof (cases "s = i")
          case False
          with sm show ?thesis by (auto simp: walks_def)
        next
          case True
          have mv: "m \<notin> set (i # visited)" using inv1 sm by blast
          have "i \<in> set (i # visited)" by simp
          from leave_visited [OF sm(4) [unfolded True] this mv] obtain u w where
            "u \<in> set (i # visited)" "w \<notin> set (i # visited)" "(u, w) \<in> ?R" "(w, m) \<in> ?R\<^sup>*" by blast
          with inv2 have "w \<in> set ?new" by blast
          with sm \<open>(w, m) \<in> ?R\<^sup>*\<close> show ?thesis by (auto simp: walks_def)
        qed
      qed
      have bwd: "(\<exists>s \<in> set ?new. \<exists>m \<in> set feederIds. m \<noteq> startId \<and> (s, m) \<in> walks es ids) \<Longrightarrow>
            (\<exists>s \<in> set (i # stack). \<exists>m \<in> set feederIds. m \<noteq> startId \<and> (s, m) \<in> walks es ids)"
      proof -
        assume "\<exists>s \<in> set ?new. \<exists>m \<in> set feederIds. m \<noteq> startId \<and> (s, m) \<in> walks es ids"
        then obtain s m where sm: "s \<in> set ?new" "m \<in> set feederIds" "m \<noteq> startId"
          "(s, m) \<in> ?R\<^sup>*" by (auto simp: walks_def)
        show ?thesis
        proof (cases "s \<in> set stack")
          case True
          with sm show ?thesis by (auto simp: walks_def)
        next
          case False
          with sm(1) have "(i, s) \<in> ?R" by (auto simp: succs_set)
          with sm(4) have "(i, m) \<in> ?R\<^sup>*" by (meson converse_rtrancl_into_rtrancl)
          with sm show ?thesis by (auto simp: walks_def)
        qed
      qed
      from False nt ih fwd bwd show ?thesis by auto
    qed
  qed
qed

lemma canReachFeeder_correct:
  "canReachFeeder es ids startId feederIds \<longleftrightarrow>
     (\<exists>m \<in> set feederIds. m \<noteq> startId \<and> (startId, m) \<in> walks es ids)"
  using canReachFeederLoop_correct [of "[]" startId feederIds es ids "[startId]"]
  by (simp add: canReachFeeder_def)


lemma dropFeeders_subset: "set (dropFeeders es ids ws F) \<subseteq> set F"
proof (induction ws arbitrary: F)
  case Nil
  show ?case by simp
next
  case (Cons n ws)
  have "set (dropFeeders es ids ws (removeAll (n_id n) F)) \<subseteq> set F"
    using Cons.IH [of "removeAll (n_id n) F"] by auto
  with Cons.IH [of F] show ?case by simp
qed

lemma dropFeeders_dropped:
  assumes "x \<in> set F" "x \<notin> set (dropFeeders es ids ws F)"
  shows "\<exists>m \<in> set F. m \<noteq> x \<and> (x, m) \<in> walks es ids"
  using assms
proof (induction ws arbitrary: F)
  case Nil
  then show ?case by simp
next
  case (Cons n ws)
  show ?case
  proof (cases "n_id n \<in> set F \<and> canReachFeeder es ids (n_id n) F")
    case False
    with Cons.prems have "x \<notin> set (dropFeeders es ids ws F)" by (auto split: if_splits)
    from Cons.IH [OF Cons.prems(1) this] show ?thesis .
  next
    case True
    show ?thesis
    proof (cases "x = n_id n")
      case True
      with \<open>n_id n \<in> set F \<and> canReachFeeder es ids (n_id n) F\<close> show ?thesis
        by (simp add: canReachFeeder_correct)
    next
      case False
      with Cons.prems(1) have a: "x \<in> set (removeAll (n_id n) F)" by simp
      from True Cons.prems(2) have b: "x \<notin> set (dropFeeders es ids ws (removeAll (n_id n) F))"
        by simp
      from Cons.IH [OF a b] show ?thesis by auto
    qed
  qed
qed

lemma dropFeeders_kept:
  assumes "x \<in> set F" "\<not> (\<exists>m \<in> set F. m \<noteq> x \<and> (x, m) \<in> walks es ids)"
  shows "x \<in> set (dropFeeders es ids ws F)"
  using assms dropFeeders_dropped by blast

lemma hasEdge_pushEdge_mono:
  "hasEdge (edges b) f t l \<Longrightarrow> hasEdge (edges (pushEdge e b)) f t l"
  by (auto simp: pushEdge_def hasEdge_def list_ex_iff)

lemma hasEdge_pushEdge_self:
  "hasEdge (edges (pushEdge \<lparr> e_from = f, e_to = t, label = l \<rparr> b)) f t l"
  by (auto simp: pushEdge_def hasEdge_def list_ex_iff)

lemma feedConnector_mono:
  "hasEdge (edges b) f t l \<Longrightarrow> hasEdge (edges (feedConnector F cid w b)) f t l"
  by (induction w arbitrary: b) (simp_all add: hasEdge_pushEdge_mono)

lemma feedConnector_feeds:
  assumes "n \<in> set w" "n_id n \<in> set F" "\<not> isLoopOrNextNode (Some n)"
  shows "hasEdge (edges (feedConnector F cid w b)) (n_id n) cid None"
  using assms
proof (induction w arbitrary: b)
  case Nil
  then show ?case by simp
next
  case (Cons a w)
  show ?case
  proof (cases "a = n")
    case True
    have "hasEdge (edges (if \<not> hasEdge (edges b) (n_id n) cid None
                          then pushEdge \<lparr> e_from = n_id n, e_to = cid, label = None \<rparr> b else b))
            (n_id n) cid None"
      by (simp add: hasEdge_pushEdge_self)
    from feedConnector_mono [OF this, of F cid w] True Cons.prems show ?thesis
      by (simp split: if_splits)
  next
    case False
    with Cons.prems have "n \<in> set w" by simp
    from Cons.IH [OF this Cons.prems(2,3)] show ?thesis by simp
  qed
qed

lemma feedConnector_new_edges:
  "set (edges (feedConnector F cid w b)) \<subseteq>
     set (edges b) \<union> {\<lparr> e_from = n_id n, e_to = cid, label = None \<rparr> | n.
                        n \<in> set w \<and> n_id n \<in> set F \<and> \<not> isLoopOrNextNode (Some n)}"
proof (induction w arbitrary: b)
  case Nil
  show ?case by simp
next
  case (Cons a w)
  have p: "set (edges (pushEdge e b)) \<subseteq> insert e (set (edges b))" for e
    by (auto simp: pushEdge_def)
  show ?case
    using Cons.IH [of b] Cons.IH [of "pushEdge \<lparr> e_from = n_id a, e_to = cid, label = None \<rparr> b"]
          p [of "\<lparr> e_from = n_id a, e_to = cid, label = None \<rparr>"]
    by (simp split: if_splits) blast+
qed

lemma feedConnector_nodes [simp]: "nodes (feedConnector F cid w b) = nodes b"
  by (induction w arbitrary: b) simp_all

lemma feedConnector_distinct:
  "distinct (map edgeKey (edges (feedConnector F cid w b))) = distinct (map edgeKey (edges b))"
  by (induction w arbitrary: b) (simp_all add: pushEdge_distinct)

lemma computeConnectorFanin_distinct:
  "distinct (map edgeKey (edges (computeConnectorFanin c b))) = distinct (map edgeKey (edges b))"
  by (simp add: computeConnectorFanin_def Let_def pushEdge_distinct feedConnector_distinct
        split: option.splits)

lemma computeConnectorFanin_feeds:
  assumes "n \<in> set (faninWindow (nodes b) (deref b c))" "n_id n \<in> set (connectorFeeders b c)"
    "\<not> isLoopOrNextNode (Some n)"
  shows "hasEdge (edges (computeConnectorFanin c b)) (n_id n) (n_id (deref b c)) None"
proof -
  let ?w = "faninWindow (nodes b) (deref b c)"
  let ?F = "dropFeeders (edges b) (map n_id ?w) ?w (map n_id ?w)"
  have "hasEdge (edges (feedConnector ?F (n_id (deref b c)) ?w b)) (n_id n) (n_id (deref b c)) None"
    using assms by (intro feedConnector_feeds) (simp_all add: connectorFeeders_def connectorWindowIds_def)
  then show ?thesis
    by (simp add: computeConnectorFanin_def Let_def hasEdge_pushEdge_mono split: option.splits)
qed

lemma walks_trans: "(x, y) \<in> walks es ids \<Longrightarrow> (y, z) \<in> walks es ids \<Longrightarrow> (x, z) \<in> walks es ids"
  by (simp add: walks_def)

lemma dropFeeders_antichain:
  assumes "x \<in> set (dropFeeders es ids ws F)" "x \<in> n_id ` set ws"
    "m \<in> set (dropFeeders es ids ws F)" "(x, m) \<in> walks es ids"
  shows "m = x"
  using assms
proof (induction ws arbitrary: F)
  case Nil
  then show ?case by simp
next
  case (Cons n ws)
  show ?case
  proof (cases "n_id n \<in> set F \<and> canReachFeeder es ids (n_id n) F")
    case True
    then have eq: "dropFeeders es ids (n # ws) F = dropFeeders es ids ws (removeAll (n_id n) F)"
      by simp
    have "x \<in> set (removeAll (n_id n) F)"
      using Cons.prems(1) dropFeeders_subset [of es ids ws "removeAll (n_id n) F"] eq by auto
    then have "x \<noteq> n_id n" by simp
    with Cons.prems(2) have "x \<in> n_id ` set ws" by auto
    from Cons.IH [OF Cons.prems(1) [unfolded eq] this Cons.prems(3) [unfolded eq] Cons.prems(4)]
    show ?thesis .
  next
    case False
    then have eq: "dropFeeders es ids (n # ws) F = dropFeeders es ids ws F" by auto
    show ?thesis
    proof (cases "x = n_id n")
      case True
      have xF: "x \<in> set F"
        using Cons.prems(1) dropFeeders_subset [of es ids ws F] eq by auto
      have mF: "m \<in> set F"
        using Cons.prems(3) dropFeeders_subset [of es ids ws F] eq by auto
      from False True xF have "\<not> canReachFeeder es ids x F" by simp
      with mF Cons.prems(4) show ?thesis by (auto simp: canReachFeeder_correct)
    next
      case nx: False
      with Cons.prems(2) have "x \<in> n_id ` set ws" by auto
      from Cons.IH [OF Cons.prems(1) [unfolded eq] this Cons.prems(3) [unfolded eq] Cons.prems(4)]
      show ?thesis .
    qed
  qed
qed

lemma dropFeeders_dropped_reaches_kept:
  assumes "x \<in> set F" "x \<notin> set (dropFeeders es ids ws F)"
  shows "\<exists>m \<in> set (dropFeeders es ids ws F). m \<noteq> x \<and> (x, m) \<in> walks es ids"
  using assms
proof (induction ws arbitrary: F x)
  case Nil
  then show ?case by simp
next
  case (Cons n ws)
  show ?case
  proof (cases "n_id n \<in> set F \<and> canReachFeeder es ids (n_id n) F")
    case False
    then have eq: "dropFeeders es ids (n # ws) F = dropFeeders es ids ws F" by auto
    from Cons.IH [OF Cons.prems(1) Cons.prems(2) [unfolded eq]] eq show ?thesis by simp
  next
    case True
    then have eq: "dropFeeders es ids (n # ws) F = dropFeeders es ids ws (removeAll (n_id n) F)"
      by simp
    let ?F' = "removeAll (n_id n) F"
    show ?thesis
    proof (cases "x = n_id n")
      case nx: False
      with Cons.prems(1) have "x \<in> set ?F'" by simp
      from Cons.IH [OF this Cons.prems(2) [unfolded eq]] eq show ?thesis by simp
    next
      case xn: True
      from True obtain m where m: "m \<in> set F" "m \<noteq> n_id n" "(n_id n, m) \<in> walks es ids"
        by (auto simp: canReachFeeder_correct)
      then have mF: "m \<in> set ?F'" by simp
      show ?thesis
      proof (cases "m \<in> set (dropFeeders es ids ws ?F')")
        case True
        with m xn eq show ?thesis by auto
      next
        case False
        from Cons.IH [OF mF False] obtain m' where
          m': "m' \<in> set (dropFeeders es ids ws ?F')" "(m, m') \<in> walks es ids" by blast
        have "m' \<in> set ?F'" using m'(1) dropFeeders_subset [of es ids ws ?F'] by auto
        then have "m' \<noteq> x" using xn by simp
        moreover have "(x, m') \<in> walks es ids" using walks_trans [OF m(3) m'(2)] xn by simp
        ultimately show ?thesis using m'(1) eq by auto
      qed
    qed
  qed
qed

lemma hasEdge_append: "hasEdge (es @ new) f t l \<longleftrightarrow> hasEdge es f t l \<or> hasEdge new f t l"
  by (auto simp: hasEdge_def list_ex_iff)

lemma feedConnector_appends:
  "\<exists>new. edges (feedConnector F cid w b) = edges b @ new
     \<and> (\<forall>e \<in> set new. \<exists>n \<in> set w. n_id n \<in> set F \<and> \<not> isLoopOrNextNode (Some n)
            \<and> \<not> hasEdge (edges b) (n_id n) cid None
            \<and> e = \<lparr> e_from = n_id n, e_to = cid, label = None \<rparr>)"
proof (induction w arbitrary: b)
  case Nil
  show ?case by simp
next
  case (Cons a w)
  let ?e = "\<lparr> e_from = n_id a, e_to = cid, label = None \<rparr>"
  show ?case
  proof (cases "\<not> isLoopOrNextNode (Some a) \<and> n_id a \<in> set F \<and> \<not> hasEdge (edges b) (n_id a) cid None")
    case False
    then have eq: "feedConnector F cid (a # w) b = feedConnector F cid w b" by auto
    from Cons.IH [of b] obtain new where
      n: "edges (feedConnector F cid w b) = edges b @ new"
         "\<forall>e \<in> set new. \<exists>n \<in> set w. n_id n \<in> set F \<and> \<not> isLoopOrNextNode (Some n)
            \<and> \<not> hasEdge (edges b) (n_id n) cid None
            \<and> e = \<lparr> e_from = n_id n, e_to = cid, label = None \<rparr>" by blast
    from n(2) have "\<forall>e \<in> set new. \<exists>n \<in> set (a # w). n_id n \<in> set F \<and> \<not> isLoopOrNextNode (Some n)
            \<and> \<not> hasEdge (edges b) (n_id n) cid None
            \<and> e = \<lparr> e_from = n_id n, e_to = cid, label = None \<rparr>" by auto
    with n(1) eq show ?thesis by auto
  next
    case True
    let ?b' = "pushEdge ?e b"
    from True have pe: "edges ?b' = edges b @ [?e]" by (simp add: pushEdge_def)
    from True have eq: "feedConnector F cid (a # w) b = feedConnector F cid w ?b'" by simp
    from Cons.IH [of ?b'] obtain new where
      n: "edges (feedConnector F cid w ?b') = edges ?b' @ new"
         "\<forall>e \<in> set new. \<exists>n \<in> set w. n_id n \<in> set F \<and> \<not> isLoopOrNextNode (Some n)
            \<and> \<not> hasEdge (edges ?b') (n_id n) cid None
            \<and> e = \<lparr> e_from = n_id n, e_to = cid, label = None \<rparr>" by blast
    have mono: "\<not> hasEdge (edges ?b') f t l \<Longrightarrow> \<not> hasEdge (edges b) f t l" for f t l
      by (simp add: pe hasEdge_append)
    have "\<forall>e \<in> set ([?e] @ new). \<exists>n \<in> set (a # w). n_id n \<in> set F \<and> \<not> isLoopOrNextNode (Some n)
            \<and> \<not> hasEdge (edges b) (n_id n) cid None
            \<and> e = \<lparr> e_from = n_id n, e_to = cid, label = None \<rparr>"
    proof
      fix e assume "e \<in> set ([?e] @ new)"
      then consider "e = ?e" | "e \<in> set new" by auto
      then show "\<exists>n \<in> set (a # w). n_id n \<in> set F \<and> \<not> isLoopOrNextNode (Some n)
            \<and> \<not> hasEdge (edges b) (n_id n) cid None
            \<and> e = \<lparr> e_from = n_id n, e_to = cid, label = None \<rparr>"
      proof cases
        case 1
        with True show ?thesis by auto
      next
        case 2
        with n(2) obtain n where "n \<in> set w" "n_id n \<in> set F" "\<not> isLoopOrNextNode (Some n)"
          "\<not> hasEdge (edges ?b') (n_id n) cid None" "e = \<lparr> e_from = n_id n, e_to = cid, label = None \<rparr>"
          by blast
        with mono [of "n_id n" cid None] show ?thesis by auto
      qed
    qed
    moreover have "edges (feedConnector F cid (a # w) b) = edges b @ ([?e] @ new)"
      using eq n(1) pe by simp
    ultimately show ?thesis by blast
  qed
qed

lemma faninWindow_not_connector: "n \<in> set (faninWindow ns cn) \<Longrightarrow> n_id n \<noteq> n_id cn"
  by (simp add: faninWindow_def Let_def)

lemma faninWindow_nodes: "set (faninWindow ns cn) \<subseteq> set ns"
  by (auto simp: faninWindow_def Let_def)

lemma computeConnectorFanin_appends:
  "\<exists>new. edges (computeConnectorFanin c b) = edges b @ new
     \<and> (\<forall>e \<in> set new.
          (\<exists>n \<in> set (faninWindow (nodes b) (deref b c)).
              n_id n \<in> set (connectorFeeders b c) \<and> \<not> isLoopOrNextNode (Some n)
              \<and> \<not> hasEdge (edges b) (n_id n) (n_id (deref b c)) None
              \<and> e = \<lparr> e_from = n_id n, e_to = n_id (deref b c), label = None \<rparr>)
          \<or> (e_from e = n_id (deref b c) \<and> e_to e \<noteq> n_id (deref b c) \<and> label e = None
              \<and> \<not> list_ex (\<lambda>e'. e_from e' = n_id (deref b c)) (edges b)))"
proof -
  let ?cn = "deref b c"
  let ?w = "faninWindow (nodes b) ?cn"
  let ?F = "dropFeeders (edges b) (map n_id ?w) ?w (map n_id ?w)"
  let ?b1 = "feedConnector ?F (n_id ?cn) ?w b"
  let ?P = "\<lambda>e. (\<exists>n \<in> set ?w.
              n_id n \<in> set (connectorFeeders b c) \<and> \<not> isLoopOrNextNode (Some n)
              \<and> \<not> hasEdge (edges b) (n_id n) (n_id ?cn) None
              \<and> e = \<lparr> e_from = n_id n, e_to = n_id ?cn, label = None \<rparr>)
          \<or> (e_from e = n_id ?cn \<and> e_to e \<noteq> n_id ?cn \<and> label e = None
              \<and> \<not> list_ex (\<lambda>e'. e_from e' = n_id ?cn) (edges b))"
  have F: "?F = connectorFeeders b c"
    by (simp add: connectorFeeders_def connectorWindowIds_def)
  from feedConnector_appends [of ?F "n_id ?cn" ?w b] obtain new where
    n: "edges ?b1 = edges b @ new"
       "\<forall>e \<in> set new. \<exists>n \<in> set ?w. n_id n \<in> set ?F \<and> \<not> isLoopOrNextNode (Some n)
            \<and> \<not> hasEdge (edges b) (n_id n) (n_id ?cn) None
            \<and> e = \<lparr> e_from = n_id n, e_to = n_id ?cn, label = None \<rparr>" by blast
  from n(2) F have pn: "\<forall>e \<in> set new. ?P e" by auto
  show ?thesis
  proof (cases "list_ex (\<lambda>e. e_from e = n_id ?cn) (edges ?b1)")
    case True
    then have "computeConnectorFanin c b = ?b1"
      by (simp add: computeConnectorFanin_def Let_def)
    with n(1) pn show ?thesis by auto
  next
    case False
    let ?f = "find (\<lambda>n. n_id n \<noteq> n_id ?cn \<and> isNonSentinel n \<and>
                            n_indent n = n_indent ?cn \<and> line n > line ?cn) (nodes ?b1)"
    show ?thesis
    proof (cases ?f)
      case None
      with False have "computeConnectorFanin c b = ?b1"
        by (simp add: computeConnectorFanin_def Let_def)
      with n(1) pn show ?thesis by auto
    next
      case (Some nx)
      let ?e = "\<lparr> e_from = n_id ?cn, e_to = n_id nx, label = None \<rparr>"
      from Some have nxid: "n_id nx \<noteq> n_id ?cn" by (auto simp: find_Some_iff)
      from False Some have cc: "computeConnectorFanin c b = pushEdge ?e ?b1"
        by (simp add: computeConnectorFanin_def Let_def)
      from False have noout: "\<not> list_ex (\<lambda>e'. e_from e' = n_id ?cn) (edges b)"
        by (simp add: n(1))
      from False have "\<not> hasEdge (edges ?b1) (n_id ?cn) (n_id nx) None"
        by (auto simp: hasEdge_def list_ex_iff)
      then have "edges (pushEdge ?e ?b1) = edges b @ (new @ [?e])"
        by (simp add: pushEdge_def n(1))
      moreover have "\<forall>e \<in> set (new @ [?e]). ?P e"
        using pn nxid noout by auto
      ultimately show ?thesis using cc by metis
    qed
  qed
qed


lemma dropFeeders_acyclic_terminals:
  assumes acyc: "\<forall>i j. (i, j) \<in> walks es (map n_id ws) \<and> (j, i) \<in> walks es (map n_id ws) \<longrightarrow> i = j"
  shows "set (dropFeeders es (map n_id ws) ws (map n_id ws)) =
           {i \<in> set (map n_id ws). \<forall>m \<in> set (map n_id ws). (i, m) \<in> walks es (map n_id ws) \<longrightarrow> m = i}"
proof (intro set_eqI iffI)
  fix x
  let ?ids = "map n_id ws"
  let ?D = "dropFeeders es ?ids ws ?ids"
  assume x: "x \<in> set ?D"
  then have xi: "x \<in> set ?ids" using dropFeeders_subset [of es ?ids ws ?ids] by auto
  then have xw: "x \<in> n_id ` set ws" by simp
  have "m = x" if m: "m \<in> set ?ids" "(x, m) \<in> walks es ?ids" for m
  proof (cases "m \<in> set ?D")
    case True
    from dropFeeders_antichain [OF x xw True m(2)] show ?thesis .
  next
    case False
    from dropFeeders_dropped_reaches_kept [OF m(1) False] obtain z where
      z: "z \<in> set ?D" "(m, z) \<in> walks es ?ids" by blast
    from dropFeeders_antichain [OF x xw z(1) walks_trans [OF m(2) z(2)]] have "z = x" .
    with z(2) m(2) acyc show ?thesis by blast
  qed
  with xi show "x \<in> {i \<in> set ?ids. \<forall>m \<in> set ?ids. (i, m) \<in> walks es ?ids \<longrightarrow> m = i}" by blast
next
  fix x
  let ?ids = "map n_id ws"
  assume "x \<in> {i \<in> set ?ids. \<forall>m \<in> set ?ids. (i, m) \<in> walks es ?ids \<longrightarrow> m = i}"
  then have "x \<in> set ?ids" "\<not> (\<exists>m \<in> set ?ids. m \<noteq> x \<and> (x, m) \<in> walks es ?ids)" by auto
  then show "x \<in> set (dropFeeders es ?ids ws ?ids)" by (rule dropFeeders_kept)
qed

text \<open>
  Claim C1, as the code has it.  \<open>canReachFeeder\<close> decides whether the start node has a
  directed walk, inside the subgraph induced on the candidates, to some other node that is
  still in the feeder set.  The feeder loop examines the candidates in creation order and
  drops a candidate exactly when it reaches such a node.  So the final feeders are
  candidates; every dropped candidate reaches another candidate, and indeed a final
  feeder; no final feeder reaches another final feeder; a candidate that reaches no other
  candidate is a final feeder; and when the induced subgraph has no cycle the final
  feeders are exactly the candidates that reach no other candidate.  Every candidate left
  in the feeder set and not tagged loop-back or forward-jump has an edge into the
  connector afterwards, and the edge list stays free of duplicates.  Fan-in only appends
  edges, and every appended edge is either the edge into the connector from such a
  candidate, which had none before, or an edge from the connector to another node, added
  only when the connector had no outgoing edge.  Hence a dropped candidate has an edge
  into the connector afterwards only if it had one before, and so has a tagged candidate
  when the node ids are distinct.
\<close>

theorem connector_fanin_feeders:
  "(canReachFeeder es ids x F \<longleftrightarrow> (\<exists>m \<in> set F. m \<noteq> x \<and> (x, m) \<in> walks es ids))
   \<and> dropFeeders es ids (n # rest) F =
       (if n_id n \<in> set F \<and> (\<exists>m \<in> set F. m \<noteq> n_id n \<and> (n_id n, m) \<in> walks es ids)
        then dropFeeders es ids rest (removeAll (n_id n) F)
        else dropFeeders es ids rest F)
   \<and> set (connectorFeeders b c) \<subseteq> set (connectorWindowIds b c)
   \<and> (\<forall>i \<in> set (connectorWindowIds b c).
         i \<notin> set (connectorFeeders b c) \<longrightarrow>
           (\<exists>m \<in> set (connectorWindowIds b c).
              m \<noteq> i \<and> (i, m) \<in> walks (edges b) (connectorWindowIds b c)))
   \<and> (\<forall>w \<in> set (faninWindow (nodes b) (deref b c)).
         n_id w \<in> set (connectorFeeders b c) \<and> \<not> isLoopOrNextNode (Some w) \<longrightarrow>
           hasEdge (edges (computeConnectorFanin c b)) (n_id w) (n_id (deref b c)) None)
   \<and> distinct (map edgeKey (edges (computeConnectorFanin c b))) = distinct (map edgeKey (edges b))
   \<and> (\<forall>i \<in> set (connectorWindowIds b c).
         i \<notin> set (connectorFeeders b c) \<longrightarrow>
           (\<exists>m \<in> set (connectorFeeders b c).
              m \<noteq> i \<and> (i, m) \<in> walks (edges b) (connectorWindowIds b c)))
   \<and> (\<forall>i \<in> set (connectorFeeders b c). \<forall>m \<in> set (connectorFeeders b c).
         (i, m) \<in> walks (edges b) (connectorWindowIds b c) \<longrightarrow> m = i)
   \<and> (\<forall>i \<in> set (connectorWindowIds b c).
         (\<forall>m \<in> set (connectorWindowIds b c).
            (i, m) \<in> walks (edges b) (connectorWindowIds b c) \<longrightarrow> m = i)
         \<longrightarrow> i \<in> set (connectorFeeders b c))
   \<and> ((\<forall>i j. (i, j) \<in> walks (edges b) (connectorWindowIds b c)
               \<and> (j, i) \<in> walks (edges b) (connectorWindowIds b c) \<longrightarrow> i = j) \<longrightarrow>
        set (connectorFeeders b c) =
          {i \<in> set (connectorWindowIds b c).
             \<forall>m \<in> set (connectorWindowIds b c).
               (i, m) \<in> walks (edges b) (connectorWindowIds b c) \<longrightarrow> m = i})
   \<and> (\<exists>new. edges (computeConnectorFanin c b) = edges b @ new
         \<and> (\<forall>e \<in> set new.
              (\<exists>w \<in> set (faninWindow (nodes b) (deref b c)).
                  n_id w \<in> set (connectorFeeders b c) \<and> \<not> isLoopOrNextNode (Some w)
                  \<and> \<not> hasEdge (edges b) (n_id w) (n_id (deref b c)) None
                  \<and> e = \<lparr> e_from = n_id w, e_to = n_id (deref b c), label = None \<rparr>)
              \<or> (e_from e = n_id (deref b c) \<and> e_to e \<noteq> n_id (deref b c) \<and> label e = None
                  \<and> \<not> list_ex (\<lambda>e'. e_from e' = n_id (deref b c)) (edges b))))
   \<and> (\<forall>w \<in> set (faninWindow (nodes b) (deref b c)).
         n_id w \<notin> set (connectorFeeders b c) \<longrightarrow>
           hasEdge (edges (computeConnectorFanin c b)) (n_id w) (n_id (deref b c)) None
             = hasEdge (edges b) (n_id w) (n_id (deref b c)) None)
   \<and> (distinct (map n_id (nodes b)) \<longrightarrow>
        (\<forall>w \<in> set (faninWindow (nodes b) (deref b c)).
           isLoopOrNextNode (Some w) \<longrightarrow>
             hasEdge (edges (computeConnectorFanin c b)) (n_id w) (n_id (deref b c)) None
               = hasEdge (edges b) (n_id w) (n_id (deref b c)) None))"
proof -
  let ?W = "connectorWindowIds b c"
  let ?Fs = "connectorFeeders b c"
  let ?win = "faninWindow (nodes b) (deref b c)"
  let ?cid = "n_id (deref b c)"
  let ?after = "edges (computeConnectorFanin c b)"
  have Fdef: "?Fs = dropFeeders (edges b) ?W ?win ?W" by (simp add: connectorFeeders_def)
  have Wdef: "?W = map n_id ?win" by (simp add: connectorWindowIds_def)
  have c1: "canReachFeeder es ids x F \<longleftrightarrow> (\<exists>m \<in> set F. m \<noteq> x \<and> (x, m) \<in> walks es ids)"
    by (rule canReachFeeder_correct)
  have c2: "dropFeeders es ids (n # rest) F =
       (if n_id n \<in> set F \<and> (\<exists>m \<in> set F. m \<noteq> n_id n \<and> (n_id n, m) \<in> walks es ids)
        then dropFeeders es ids rest (removeAll (n_id n) F)
        else dropFeeders es ids rest F)"
    by (auto simp: canReachFeeder_correct)
  have c3: "set ?Fs \<subseteq> set ?W"
    by (simp add: connectorFeeders_def dropFeeders_subset)
  have c4: "\<forall>i \<in> set ?W. i \<notin> set ?Fs \<longrightarrow> (\<exists>m \<in> set ?W. m \<noteq> i \<and> (i, m) \<in> walks (edges b) ?W)"
    unfolding Fdef using dropFeeders_dropped by blast
  have c5: "\<forall>w \<in> set ?win. n_id w \<in> set ?Fs \<and> \<not> isLoopOrNextNode (Some w) \<longrightarrow>
              hasEdge ?after (n_id w) ?cid None"
    by (simp add: computeConnectorFanin_feeds)
  have c6: "distinct (map edgeKey ?after) = distinct (map edgeKey (edges b))"
    by (rule computeConnectorFanin_distinct)
  have c7: "\<forall>i \<in> set ?W. i \<notin> set ?Fs \<longrightarrow> (\<exists>m \<in> set ?Fs. m \<noteq> i \<and> (i, m) \<in> walks (edges b) ?W)"
    unfolding Fdef using dropFeeders_dropped_reaches_kept by blast
  have c8: "\<forall>i \<in> set ?Fs. \<forall>m \<in> set ?Fs. (i, m) \<in> walks (edges b) ?W \<longrightarrow> m = i"
  proof (intro ballI impI)
    fix i m assume i: "i \<in> set ?Fs" and m: "m \<in> set ?Fs" and w: "(i, m) \<in> walks (edges b) ?W"
    from i c3 have "i \<in> n_id ` set ?win" by (auto simp: Wdef)
    from dropFeeders_antichain [OF i [unfolded Fdef] this m [unfolded Fdef] w] show "m = i" .
  qed
  have c9: "\<forall>i \<in> set ?W. (\<forall>m \<in> set ?W. (i, m) \<in> walks (edges b) ?W \<longrightarrow> m = i) \<longrightarrow> i \<in> set ?Fs"
  proof (intro ballI impI)
    fix i assume i: "i \<in> set ?W" and t: "\<forall>m \<in> set ?W. (i, m) \<in> walks (edges b) ?W \<longrightarrow> m = i"
    then have "\<not> (\<exists>m \<in> set ?W. m \<noteq> i \<and> (i, m) \<in> walks (edges b) ?W)" by blast
    from dropFeeders_kept [OF i this] show "i \<in> set ?Fs" by (simp add: Fdef)
  qed
  have c10: "(\<forall>i j. (i, j) \<in> walks (edges b) ?W \<and> (j, i) \<in> walks (edges b) ?W \<longrightarrow> i = j) \<longrightarrow>
        set ?Fs = {i \<in> set ?W. \<forall>m \<in> set ?W. (i, m) \<in> walks (edges b) ?W \<longrightarrow> m = i}"
    unfolding Fdef Wdef by (intro impI dropFeeders_acyclic_terminals)
  from computeConnectorFanin_appends [of c b] obtain new where
    new: "?after = edges b @ new"
      "\<forall>e \<in> set new.
              (\<exists>w \<in> set ?win.
                  n_id w \<in> set ?Fs \<and> \<not> isLoopOrNextNode (Some w)
                  \<and> \<not> hasEdge (edges b) (n_id w) ?cid None
                  \<and> e = \<lparr> e_from = n_id w, e_to = ?cid, label = None \<rparr>)
              \<or> (e_from e = ?cid \<and> e_to e \<noteq> ?cid \<and> label e = None
                  \<and> \<not> list_ex (\<lambda>e'. e_from e' = ?cid) (edges b))"
    by blast
  then have c11: "\<exists>new. ?after = edges b @ new
         \<and> (\<forall>e \<in> set new.
              (\<exists>w \<in> set ?win.
                  n_id w \<in> set ?Fs \<and> \<not> isLoopOrNextNode (Some w)
                  \<and> \<not> hasEdge (edges b) (n_id w) ?cid None
                  \<and> e = \<lparr> e_from = n_id w, e_to = ?cid, label = None \<rparr>)
              \<or> (e_from e = ?cid \<and> e_to e \<noteq> ?cid \<and> label e = None
                  \<and> \<not> list_ex (\<lambda>e'. e_from e' = ?cid) (edges b)))"
    by blast
  have into: "\<exists>w \<in> set ?win. n_id w = f \<and> n_id w \<in> set ?Fs \<and> \<not> isLoopOrNextNode (Some w)"
    if "hasEdge new f ?cid None" for f
  proof -
    from that obtain e where e: "e \<in> set new" "e_from e = f" "e_to e = ?cid"
      by (auto simp: hasEdge_def list_ex_iff)
    with new(2) show ?thesis by fastforce
  qed
  have c12: "\<forall>w \<in> set ?win. n_id w \<notin> set ?Fs \<longrightarrow>
           hasEdge ?after (n_id w) ?cid None = hasEdge (edges b) (n_id w) ?cid None"
  proof (intro ballI impI)
    fix w assume "w \<in> set ?win" "n_id w \<notin> set ?Fs"
    with into [of "n_id w"] have "\<not> hasEdge new (n_id w) ?cid None" by auto
    then show "hasEdge ?after (n_id w) ?cid None = hasEdge (edges b) (n_id w) ?cid None"
      by (simp add: new(1) hasEdge_append)
  qed
  have c13: "distinct (map n_id (nodes b)) \<longrightarrow>
        (\<forall>w \<in> set ?win. isLoopOrNextNode (Some w) \<longrightarrow>
             hasEdge ?after (n_id w) ?cid None = hasEdge (edges b) (n_id w) ?cid None)"
  proof (intro ballI impI)
    fix w assume d: "distinct (map n_id (nodes b))" and w: "w \<in> set ?win" "isLoopOrNextNode (Some w)"
    have "\<not> hasEdge new (n_id w) ?cid None"
    proof
      assume "hasEdge new (n_id w) ?cid None"
      from into [OF this] obtain w' where
        w': "w' \<in> set ?win" "n_id w' = n_id w" "\<not> isLoopOrNextNode (Some w')" by blast
      from w(1) w'(1) faninWindow_nodes have "w \<in> set (nodes b)" "w' \<in> set (nodes b)" by blast+
      with d w'(2) have "w' = w" by (meson distinct_map inj_onD)
      with w'(3) w(2) show False by simp
    qed
    then show "hasEdge ?after (n_id w) ?cid None = hasEdge (edges b) (n_id w) ?cid None"
      by (simp add: new(1) hasEdge_append)
  qed
  from c1 c2 c3 c4 c5 c6 c7 c8 c9 c10 c11 c12 c13 show ?thesis by (intro conjI)
qed

text \<open>In the chain document the window of the connector 3 holds the candidates 1 and 2 and
  the induced subgraph is the single edge from 1 to 2, which has no cycle: 1 is dropped, 2
  is the only final feeder, the one appended edge runs from 2 into the connector, and 1
  gets no edge into it.\<close>

theorem connector_fanin_feeders_witness:
  "connectorWindowIds chainBuilder 3 = [1, 2]
   \<and> connectorFeeders chainBuilder 3 = [2]
   \<and> (\<exists>m \<in> set [1, 2]. m \<noteq> 1 \<and> (1, m) \<in> walks (edges chainBuilder) [1, 2])
   \<and> hasEdge (edges (computeConnectorFanin 3 chainBuilder)) 2 3 None
   \<and> edgeEnds (edges (computeConnectorFanin 3 chainBuilder)) = [(0, 1), (1, 2), (2, 3)]
   \<and> \<not> hasEdge (edges (computeConnectorFanin 3 chainBuilder)) 1 3 None
   \<and> (\<exists>new. edges (computeConnectorFanin 3 chainBuilder) = edges chainBuilder @ new
         \<and> list_all (\<lambda>e. e_to e = 3 \<and> e_from e \<in> set (connectorFeeders chainBuilder 3)) new)
   \<and> set (connectorFeeders chainBuilder 3) =
        {i \<in> set [1, 2]. \<forall>m \<in> set [1, 2]. (i, m) \<in> walks (edges chainBuilder) [1, 2] \<longrightarrow> m = i}"
proof -
  have ev: "connectorWindowIds chainBuilder 3 = [1, 2]" "connectorFeeders chainBuilder 3 = [2]"
    "edgeEnds (edges (computeConnectorFanin 3 chainBuilder)) = [(0, 1), (1, 2), (2, 3)]"
    "plainNode 2 Process 2 0 ''b'' \<in> set (faninWindow (nodes chainBuilder) (deref chainBuilder 3))"
    "\<not> isLoopOrNextNode (Some (plainNode 2 Process 2 0 ''b''))"
    "n_id (plainNode 2 Process 2 0 ''b'') = 2" "n_id (deref chainBuilder 3) = 3"
    by code_simp+
  have ev2: "plainNode 1 Process 1 0 ''a'' \<in> set (faninWindow (nodes chainBuilder) (deref chainBuilder 3))"
    "n_id (plainNode 1 Process 1 0 ''a'') = 1"
    "\<not> hasEdge (edges chainBuilder) 1 3 None"
    "inducedEdges (edges chainBuilder) [1, 2] = [(1, 2)]"
    by code_simp+
  have step: "(i, j) \<in> {(1::nat, 2::nat)}\<^sup>* \<Longrightarrow> i = j \<or> (i = 1 \<and> j = 2)" for i j
    by (induction rule: rtrancl_induct) auto
  have acyc: "\<forall>i j. (i, j) \<in> walks (edges chainBuilder) (connectorWindowIds chainBuilder 3)
               \<and> (j, i) \<in> walks (edges chainBuilder) (connectorWindowIds chainBuilder 3) \<longrightarrow> i = j"
  proof (intro allI impI)
    fix i j :: nat
    have w: "walks (edges chainBuilder) (connectorWindowIds chainBuilder 3) = {(1, 2)}\<^sup>*"
      unfolding walks_def ev(1) ev2(4) by simp
    assume "(i, j) \<in> walks (edges chainBuilder) (connectorWindowIds chainBuilder 3)
               \<and> (j, i) \<in> walks (edges chainBuilder) (connectorWindowIds chainBuilder 3)"
    then have "(i, j) \<in> {(1, 2)}\<^sup>*" "(j, i) \<in> {(1, 2)}\<^sup>*" by (simp_all add: w)
    from step [OF this(1)] step [OF this(2)] show "i = j" by auto
  qed
  note t = connector_fanin_feeders [of "[]" "[]" 0 "[]" "plainNode 0 Start 0 0 []" "[]" chainBuilder 3]
  note a = t [THEN conjunct2, THEN conjunct2, THEN conjunct2, THEN conjunct1]
  note b = t [THEN conjunct2, THEN conjunct2, THEN conjunct2, THEN conjunct2, THEN conjunct1]
  note d = t [THEN conjunct2, THEN conjunct2, THEN conjunct2, THEN conjunct2, THEN conjunct2, THEN conjunct2, THEN conjunct2, THEN conjunct2, THEN conjunct2, THEN conjunct2, THEN conjunct2, THEN conjunct1]
  have e: "set (connectorFeeders chainBuilder 3) =
          {i \<in> set (connectorWindowIds chainBuilder 3).
             \<forall>m \<in> set (connectorWindowIds chainBuilder 3).
               (i, m) \<in> walks (edges chainBuilder) (connectorWindowIds chainBuilder 3) \<longrightarrow> m = i}"
    by (rule mp [OF t [THEN conjunct2, THEN conjunct2, THEN conjunct2, THEN conjunct2, THEN conjunct2, THEN conjunct2, THEN conjunct2, THEN conjunct2, THEN conjunct2, THEN conjunct1] acyc])
  from t [THEN conjunct2, THEN conjunct2, THEN conjunct2, THEN conjunct2, THEN conjunct2, THEN conjunct2, THEN conjunct2, THEN conjunct2, THEN conjunct2, THEN conjunct2, THEN conjunct1] obtain new where new: "edges (computeConnectorFanin 3 chainBuilder) = edges chainBuilder @ new"
    by (elim exE conjE)
  have c1: "\<exists>m \<in> set [1, 2]. m \<noteq> 1 \<and> (1, m) \<in> walks (edges chainBuilder) [1, 2]"
    using a ev(1,2) by simp
  have c2: "hasEdge (edges (computeConnectorFanin 3 chainBuilder)) 2 3 None"
    using b ev by (metis list.set_intros(1))
  have nf: "n_id (plainNode 1 Process 1 0 ''a'') \<notin> set (connectorFeeders chainBuilder 3)"
    unfolding ev2(2) ev(2) by simp
  from d ev2(1) nf have
    "hasEdge (edges (computeConnectorFanin 3 chainBuilder)) (n_id (plainNode 1 Process 1 0 ''a''))
        (n_id (deref chainBuilder 3)) None
     = hasEdge (edges chainBuilder) (n_id (plainNode 1 Process 1 0 ''a'')) (n_id (deref chainBuilder 3)) None"
    by blast
  then have c3: "\<not> hasEdge (edges (computeConnectorFanin 3 chainBuilder)) 1 3 None"
    unfolding ev2(2) ev(7) using ev2(3) by simp
  have before: "edgeEnds (edges chainBuilder) = [(0, 1), (1, 2)]" by code_simp
  from ev(3) [unfolded new(1)] have "edgeEnds (edges chainBuilder) @ edgeEnds new = [(0, 1), (1, 2), (2, 3)]"
    by (simp add: edgeEnds_def)
  then have ends: "edgeEnds new = [(2, 3)]" unfolding before by simp
  have c4: "list_all (\<lambda>e. e_to e = 3 \<and> e_from e \<in> set (connectorFeeders chainBuilder 3)) new"
    using ends unfolding ev(2) by (auto simp: list_all_iff edgeEnds_def)
  from c4 new(1) have c5: "\<exists>new. edges (computeConnectorFanin 3 chainBuilder) = edges chainBuilder @ new
         \<and> list_all (\<lambda>e. e_to e = 3 \<and> e_from e \<in> set (connectorFeeders chainBuilder 3)) new"
    by blast
  note e' = e [unfolded ev(1)]
  from ev(1,2) c1 c2 ev(3) c3 c5 e' show ?thesis by (intro conjI)
qed

text \<open>The claim as stated drops a candidate that another candidate reaches.  In the chain
  document candidate 1 reaches candidate 2; the code drops 1 and keeps 2, which feeds the
  connector 3, and 1 does not feed it.\<close>

theorem connector_fanin_counterexample:
  "map_sum id (\<lambda>g. edgeEnds (g_edges g)) (parseivx chainText) = Inr [(0, 1), (1, 2), (2, 3), (3, 4)]
   \<and> connectorWindowIds chainBuilder 3 = [1, 2]
   \<and> (1, 2) \<in> set (inducedEdges (edges chainBuilder) [1, 2])
   \<and> connectorFeeders chainBuilder 3 = [2]
   \<and> hasEdge (edges (computeConnectorFanin 3 chainBuilder)) 2 3 None
   \<and> \<not> hasEdge (edges (computeConnectorFanin 3 chainBuilder)) 1 3 None"
  by code_simp

subsection \<open>Default wiring of a connector\<close>

lemma wireSequential_connector:
  assumes "kind (deref b to) = Connector"
  shows "wireSequential to u b = b \<or> wireSequential to u b = b\<lparr> lastExecutableNode := Some to \<rparr>"
  using assms by (simp add: wireSequential_def Let_def)

lemma finalizeNode_kinds [simp]:
  "map kind (nodes (finalizeNode r gram b)) = map kind (nodes b)"
  by (simp add: finalizeNode_def Let_def split: option.splits)

lemma registerInFun_kinds [simp]:
  "map kind (nodes (gb (registerInFun node s))) = map kind (nodes (gb s))"
  by (simp add: registerInFun_def Let_def split: list.splits)

lemma createExecutableNode_kinds:
  assumes "createExecutableNode k seg t gram skip s = (node, s1)"
  shows "node = length (nodes (gb s)) \<and> map kind (nodes (gb s1)) = map kind (nodes (gb s)) @ [k]"
  using assms by (auto simp: createExecutableNode_def makeNode_def Let_def)

lemma popObsoleteLoop_nodes [simp]:
  "nodes (gb (popObsoleteLoop seg sk ds s)) = nodes (gb s)"
  by (induction ds arbitrary: s) simp_all

lemma computeConnectorFanin_nodes [simp]:
  "nodes (computeConnectorFanin c b) = nodes b"
  by (simp add: computeConnectorFanin_def Let_def split: option.splits)

lemma registerInFun_funStack_empty [simp]:
  "(funStack (registerInFun node s) = []) = (funStack s = [])"
  by (simp add: registerInFun_def Let_def split: list.splits)

lemma createExecutableNode_funStack_empty:
  assumes "createExecutableNode k seg t gram skip s = (node, s1)"
  shows "(funStack s1 = []) = (funStack s = [])"
  using assms by (auto simp: createExecutableNode_def Let_def split: prod.splits if_splits)

lemma popObsoleteLoop_funStack [simp]:
  "funStack (popObsoleteLoop seg sk ds s) = funStack s"
  by (induction ds arbitrary: s) simp_all

lemma connectorBeforeWiring_funStack_empty:
  assumes "connectorBeforeWiring seg gram s = (c, s4)"
  shows "(funStack s4 = []) = (funStack s = [])"
proof -
  let ?t = "if trimmedCode gram = [] then ''ii'' else trimmedCode gram"
  obtain c' s1 where cr: "createExecutableNode Connector seg ?t gram False s = (c', s1)"
    by (cases "createExecutableNode Connector seg ?t gram False s")
  from assms cr have "funStack s4 = funStack s1"
    by (auto simp: connectorBeforeWiring_def Let_def popObsoleteDecisions_def)
  with createExecutableNode_funStack_empty [OF cr] show ?thesis by simp
qed

lemma connectorBeforeWiring_kind:
  assumes "connectorBeforeWiring seg gram s = (c, s4)"
  shows "kind (deref (gb s4) c) = Connector"
proof -
  let ?t = "if trimmedCode gram = [] then ''ii'' else trimmedCode gram"
  obtain c' s1 where cr: "createExecutableNode Connector seg ?t gram False s = (c', s1)"
    by (cases "createExecutableNode Connector seg ?t gram False s")
  note k = createExecutableNode_kinds [OF cr]
  from assms cr have c: "c = c'" and
    n: "nodes (gb s4) = nodes (gb s1)"
    by (auto simp: connectorBeforeWiring_def Let_def popObsoleteDecisions_def)
  have "map kind (nodes (gb s4)) ! c = Connector"
    using k c n by (simp add: nth_append)
  moreover have "c < length (nodes (gb s4))"
    using k c n by (metis length_map length_append_singleton lessI)
  ultimately show ?thesis by (simp add: deref_def)
qed

text \<open>
  Claim C2, as the code has it.  With no function context open the connector handler ends
  with \<open>wireSequential\<close> on the connector, cursor update enabled.  For a target of kind
  Connector \<open>wireSequential\<close> adds no edge and changes no node: it returns the builder as
  it is or with the cursor moved to the target.  So the edges after the handler are the
  edges after fan-in; no edge from the default predecessor is added.
\<close>

theorem connector_default_wiring_adds_no_edge:
  "(kind (deref b to) = Connector \<longrightarrow>
      edges (wireSequential to u b) = edges b \<and> nodes (wireSequential to u b) = nodes b
      \<and> (wireSequential to u b = b \<or> wireSequential to u b = b\<lparr> lastExecutableNode := Some to \<rparr>))
   \<and> (funStack s = [] \<longrightarrow>
        gb (handleConnector seg gram s) =
          wireSequential (fst (connectorBeforeWiring seg gram s)) True
            (gb (snd (connectorBeforeWiring seg gram s))))
   \<and> edges (gb (handleConnector seg gram s)) = edges (gb (snd (connectorBeforeWiring seg gram s)))
   \<and> nodes (gb (handleConnector seg gram s)) = nodes (gb (snd (connectorBeforeWiring seg gram s)))"
proof -
  obtain c s4 where cb: "connectorBeforeWiring seg gram s = (c, s4)"
    by (cases "connectorBeforeWiring seg gram s")
  note kc = connectorBeforeWiring_kind [OF cb]
  have hc: "handleConnector seg gram s =
              (if funStack s4 = [] then s4\<lparr> gb := wireSequential c True (gb s4) \<rparr> else s4)"
    using cb by (auto simp: handleConnector_def connectorBeforeWiring_def Let_def split: prod.splits)
  note fs = connectorBeforeWiring_funStack_empty [OF cb]
  have w: "edges (wireSequential c True (gb s4)) = edges (gb s4)"
          "nodes (wireSequential c True (gb s4)) = nodes (gb s4)"
    using wireSequential_connector [OF kc, of True] by auto
  have a: "kind (deref b to) = Connector \<longrightarrow>
      edges (wireSequential to u b) = edges b \<and> nodes (wireSequential to u b) = nodes b
      \<and> (wireSequential to u b = b \<or> wireSequential to u b = b\<lparr> lastExecutableNode := Some to \<rparr>)"
    using wireSequential_connector [of b to u] by auto
  show ?thesis
    using a w by (simp add: hc cb fs)
qed


theorem connector_default_wiring_adds_no_edge_witness:
  "kind (deref (gb (snd (connectorBeforeWiring connectorSegment connectorGrammar beforeConnector))) 3) = Connector
   \<and> funStack beforeConnector = []
   \<and> fst (connectorBeforeWiring connectorSegment connectorGrammar beforeConnector) = 3
   \<and> edgeEnds (edges (gb (handleConnector connectorSegment connectorGrammar beforeConnector)))
       = [(0, 1), (1, 2)]
   \<and> lastExecutableNode (gb (handleConnector connectorSegment connectorGrammar beforeConnector)) = Some 3
   \<and> edges (wireSequential 3 True
         (gb (snd (connectorBeforeWiring connectorSegment connectorGrammar beforeConnector))))
       = edges (gb (snd (connectorBeforeWiring connectorSegment connectorGrammar beforeConnector)))"
proof -
  have ev: "kind (deref (gb (snd (connectorBeforeWiring connectorSegment connectorGrammar beforeConnector))) 3) = Connector"
    "funStack beforeConnector = []"
    "fst (connectorBeforeWiring connectorSegment connectorGrammar beforeConnector) = 3"
    "edgeEnds (edges (gb (snd (connectorBeforeWiring connectorSegment connectorGrammar beforeConnector))))
       = [(0, 1), (1, 2)]"
    "lastExecutableNode (gb (handleConnector connectorSegment connectorGrammar beforeConnector)) = Some 3"
    by code_simp+
  from connector_default_wiring_adds_no_edge
         [of "gb (snd (connectorBeforeWiring connectorSegment connectorGrammar beforeConnector))" 3 True
             beforeConnector connectorSegment connectorGrammar] ev
  show ?thesis by simp
qed

text \<open>In the document \<open>strandedConnectorText\<close> the cursor is on node 2 when the connector
  (node 3) is handled, with no function context open; the returned graph has no edge from
  2 to 3 and no edge into 3 at all.\<close>

theorem connector_default_edge_counterexample:
  "map_sum id (\<lambda>g. (map kind (g_nodes g), edgeEnds (g_edges g))) (parseivx strandedConnectorText)
     = Inr ([Start, Process, Process, Connector, End], [(0, 1), (1, 2), (3, 4)])
   \<and> map_sum id (\<lambda>s. (lastExecutableNode (gb s), funStack s))
        (parseLoop (take 2 (collectSegments strandedConnectorText)) initialState) = Inr (Some 2, [])
   \<and> map_sum id (\<lambda>g. hasEdge (g_edges g) 2 3 None) (parseivx strandedConnectorText) = Inr False
   \<and> map_sum id (\<lambda>g. list_ex (\<lambda>e. e_to e = 3) (g_edges g)) (parseivx strandedConnectorText)
        = Inr False"
  by code_simp

end
